theory Spec2Isabelle
  imports Complex_Main "HOL-Library.Multiset"
begin

section \<open>The anime picker: data model\<close>

text \<open>
  The component \<^verbatim>\<open>App\<close> of \<^verbatim>\<open>App.tsx\<close> is modelled as a transition system.  Its
  React state variables and the cache reference are the fields of one record; every
  event handler, effect body and continuation of an \<^verbatim>\<open>await\<close> is a function on that
  record.  The repository holds two revisions of the file; \<^verbatim>\<open>shuffleArray\<close>,
  \<^verbatim>\<open>loadAnimeData\<close>, \<^verbatim>\<open>prefetchNext\<close> and \<^verbatim>\<open>handleChoice\<close> are the same in both, and
  \<^verbatim>\<open>handleFileUpload\<close> exists in the later one only.

  The model covers what the handlers and effects do: what they read and write, the
  calls and timers they start, and the values they hand to the state setters.
  Rendering is outside it: the JSX, and what React makes of a state value while it
  renders.  Presentation state that no handler modelled here reads (\<^verbatim>\<open>showUpload\<close>,
  \<^verbatim>\<open>isDragging\<close>, \<^verbatim>\<open>showClearConfirm\<close>), the persisted copy of the export in
  \<^verbatim>\<open>localStorage\<close> and the XML parser are left out: the handlers receive the parsed
  entries.
\<close>

subsection \<open>Strings and values\<close>

text \<open>
  A JavaScript string is a sequence of UTF-16 code units; a code unit is a number
  here.  \<open>js\<close> turns a literal of ASCII characters into its code units.
\<close>

type_synonym js_string = "nat list"

definition js :: "string \<Rightarrow> js_string" where
  "js s = map of_char s"

text \<open>What \<^verbatim>\<open>res.json()\<close> can give: a JSON value.  The number of \<open>JNum\<close> is the value of
  the double.\<close>

datatype json =
    JNull
  | JBool bool
  | JNum real
  | JStr js_string
  | JArr "json list"
  | JObj "(js_string \<times> json) list"

text \<open>
  The values the cache and the state variable \<^verbatim>\<open>jikanData\<close> can hold.  The type
  \<^verbatim>\<open>JikanAnime\<close> is a cast on \<^verbatim>\<open>json.data\<close> that nothing checks, so a value is
  \<^verbatim>\<open>undefined\<close>, a JSON value (\<^verbatim>\<open>null\<close> is \<open>Json JNull\<close>) or, for a lookup in the cache
  object, the member of \<^verbatim>\<open>Object.prototype\<close> of that name.  As the value of \<^verbatim>\<open>jikanData\<close>,
  \<open>Inherited name\<close> records that \<^verbatim>\<open>loadAnimeData\<close> handed that member to \<^verbatim>\<open>setJikanData\<close>;
  React takes a function it is handed for an updater, and what the state is after
  that belongs to rendering and is not computed here.  No property below is about the
  current metadata in that case.
\<close>

datatype js_value =
    Undefined
  | Json json
  | Inherited js_string

text \<open>The test \<^verbatim>\<open>if (v)\<close>: \<^verbatim>\<open>undefined\<close>, \<^verbatim>\<open>null\<close>, \<^verbatim>\<open>false\<close>, zero and the empty string are
  falsy, every array, object and function is truthy.\<close>

fun truthy :: "js_value \<Rightarrow> bool" where
  "truthy Undefined = False"
| "truthy (Json JNull) = False"
| "truthy (Json (JBool b)) = b"
| "truthy (Json (JNum r)) = (r \<noteq> 0)"
| "truthy (Json (JStr s)) = (s \<noteq> [])"
| "truthy (Json (JArr xs)) = True"
| "truthy (Json (JObj kvs)) = True"
| "truthy (Inherited name) = True"

text \<open>The interface \<^verbatim>\<open>JikanAnime\<close>, and the JSON object of a value of it: a field with
  \<^verbatim>\<open>?\<close> may be missing, a field with \<^verbatim>\<open>| null\<close> may be \<^verbatim>\<open>null\<close>.\<close>

record jpg_images =
  image_url :: js_string
  large_image_url :: "js_string option"

record image_set =
  jpg :: jpg_images

record JikanAnime =
  mal_id :: int
  title :: js_string
  title_english :: "js_string option"
  images :: image_set
  synopsis :: "js_string option"
  episodes :: "int option"
  type :: "js_string option"
  status :: "js_string option"
  score :: "real option"

definition optional :: "js_string \<Rightarrow> js_string option \<Rightarrow> (js_string \<times> json) list" where
  "optional name v = (case v of None \<Rightarrow> [] | Some t \<Rightarrow> [(name, JStr t)])"

definition nullable :: "('a \<Rightarrow> json) \<Rightarrow> 'a option \<Rightarrow> json" where
  "nullable f v = (case v of None \<Rightarrow> JNull | Some x \<Rightarrow> f x)"

definition anime_json :: "JikanAnime \<Rightarrow> json" where
  "anime_json a =
     JObj ([(js ''mal_id'', JNum (of_int (mal_id a))), (js ''title'', JStr (title a))] @
           optional (js ''title_english'') (title_english a) @
           [(js ''images'',
               JObj [(js ''jpg'',
                  JObj ([(js ''image_url'', JStr (image_url (jpg (images a))))] @
                        optional (js ''large_image_url'') (large_image_url (jpg (images a)))))]),
            (js ''synopsis'', nullable JStr (synopsis a)),
            (js ''episodes'', nullable (\<lambda>n. JNum (of_int n)) (episodes a)),
            (js ''type'', nullable JStr (type a)),
            (js ''status'', nullable JStr (status a)),
            (js ''score'', nullable JNum (score a))])"

text \<open>The fields of \<^verbatim>\<open>AnimeXml\<close> are \<^verbatim>\<open>id\<close>, \<^verbatim>\<open>title\<close> and \<^verbatim>\<open>status\<close>; they carry a
  suffix here because \<open>id\<close> is the identity function of HOL and the other two are
  fields of \<open>JikanAnime\<close> already.\<close>

record AnimeXml =
  id_x :: js_string
  title_x :: js_string
  status_x :: js_string

datatype choice = liked | disliked

subsection \<open>\<^verbatim>\<open>parseInt(id, 10)\<close>\<close>

text \<open>
  \<^verbatim>\<open>parseInt\<close> with radix 10 drops leading white space, reads an optional sign and
  then the longest run of decimal digits; with no digit the result is \<^verbatim>\<open>NaN\<close>, which
  is \<open>None\<close> here.  White space is what the language calls \<^verbatim>\<open>WhiteSpace\<close> and
  \<^verbatim>\<open>LineTerminator\<close>: tab, line feed, vertical tab, form feed, carriage return, space,
  U+00A0, U+1680, U+2000 to U+200A, U+2028, U+2029, U+202F, U+205F, U+3000 and
  U+FEFF.  The result here is the integer the digits and the sign spell; the code
  holds the double nearest to it, which is that integer below \<open>2 ^ 53\<close>.  Nothing below
  depends on the number beyond there being one.
\<close>

definition isWhiteSpace :: "nat \<Rightarrow> bool" where
  "isWhiteSpace c \<longleftrightarrow>
     c \<in> set [0x09, 0x0A, 0x0B, 0x0C, 0x0D, 0x20, 0xA0, 0x1680,
               0x2000, 0x2001, 0x2002, 0x2003, 0x2004, 0x2005, 0x2006, 0x2007, 0x2008,
               0x2009, 0x200A, 0x2028, 0x2029, 0x202F, 0x205F, 0x3000, 0xFEFF]"

definition isDigit :: "nat \<Rightarrow> bool" where
  "isDigit c \<longleftrightarrow> 0x30 \<le> c \<and> c \<le> 0x39"

definition digitVal :: "nat \<Rightarrow> int" where
  "digitVal c = int c - 0x30"

definition parseInt :: "js_string \<Rightarrow> int option" where
  "parseInt str =
     (let S = dropWhile isWhiteSpace str;
          neg = (S \<noteq> [] \<and> hd S = 0x2D);
          S' = (if S \<noteq> [] \<and> (hd S = 0x2D \<or> hd S = 0x2B) then tl S else S);
          Z = takeWhile isDigit S'
      in if Z = [] then None
         else Some ((if neg then - 1 else 1) * foldl (\<lambda>a c. 10 * a + digitVal c) 0 Z))"

subsection \<open>\<^verbatim>\<open>shuffleArray\<close>\<close>

text \<open>
  \<open>rnd i\<close> is the value \<^verbatim>\<open>Math.random()\<close> returns in the iteration with loop variable
  \<open>i\<close>.  The loop runs on the copy \<^verbatim>\<open>arr\<close>, from \<^verbatim>\<open>arr.length - 1\<close> down to \<open>1\<close>; the
  destructuring assignment reads both elements before it writes them.
\<close>

fun shuffle_loop :: "(nat \<Rightarrow> real) \<Rightarrow> nat \<Rightarrow> 'a list \<Rightarrow> 'a list" where
  "shuffle_loop rnd 0 arr = arr"
| "shuffle_loop rnd (Suc i) arr =
     (let j = nat \<lfloor>rnd (Suc i) * real (Suc i + 1)\<rfloor>
      in shuffle_loop rnd i (arr[Suc i := arr ! j, j := arr ! Suc i]))"

definition shuffleArray :: "(nat \<Rightarrow> real) \<Rightarrow> 'a list \<Rightarrow> 'a list" where
  "shuffleArray rnd array = shuffle_loop rnd (length array - 1) array"

text \<open>
  The same function on a store of arrays, where an array is its address (its index
  in the store): \<^verbatim>\<open>[...array]\<close> allocates the copy \<^verbatim>\<open>arr\<close> at a fresh address, and every
  assignment of the loop is a write to the store at \<^verbatim>\<open>arr\<close>.  The result is the address
  \<^verbatim>\<open>arr\<close> and the new store.
\<close>

type_synonym 'a store = "'a list list"

fun shuffle_loop_store :: "(nat \<Rightarrow> real) \<Rightarrow> nat \<Rightarrow> nat \<Rightarrow> 'a store \<Rightarrow> 'a store" where
  "shuffle_loop_store rnd 0 arr h = h"
| "shuffle_loop_store rnd (Suc i) arr h =
     (let j = nat \<lfloor>rnd (Suc i) * real (Suc i + 1)\<rfloor>
      in shuffle_loop_store rnd i arr
           (h[arr := (h ! arr)[Suc i := h ! arr ! j, j := h ! arr ! Suc i]]))"

definition shuffleArray_store :: "(nat \<Rightarrow> real) \<Rightarrow> nat \<Rightarrow> 'a store \<Rightarrow> nat \<times> 'a store" where
  "shuffleArray_store rnd array h =
     (let arr = length h;
          h1 = h @ [h ! array]
      in (arr, shuffle_loop_store rnd (length (h1 ! arr) - 1) arr h1))"

section \<open>The component state and its pending work\<close>

text \<open>
  A \<open>task\<close> is a piece of work the event loop still owes the component: the promise
  of the mount effect, the continuation of \<^verbatim>\<open>loadAnimeData\<close> after \<^verbatim>\<open>await fetch\<close>, the
  two continuations of \<^verbatim>\<open>prefetchNext\<close> (after the 900 ms timer and after its fetch),
  each with the variables its closure holds (\<^verbatim>\<open>animeList\<close>, \<^verbatim>\<open>currentIndex\<close>, \<^verbatim>\<open>i\<close>,
  \<^verbatim>\<open>next\<close>, \<^verbatim>\<open>idNum\<close>), and the cooldown timer of \<^verbatim>\<open>handleChoice\<close>.  Timers carry the
  time at which they fall due.  A task keeps its position in the list of tasks; when
  it ends, \<open>Done\<close> takes its place.
\<close>

datatype task =
    LoadXml
  | FgFetch js_string int
  | PfTimer "AnimeXml list" nat nat AnimeXml int nat
  | PfFetch "AnimeXml list" nat nat AnimeXml
  | Cooldown nat
  | Done

text \<open>One entry of the log of outbound calls: when the call started, the number in
  its URL, the identifier it resolves and the task that issued it.\<close>

record call =
  call_at :: nat
  call_idNum :: int
  call_key :: js_string
  call_origin :: nat

text \<open>
  The state: the six state variables of the component (\<^verbatim>\<open>_choices\<close> is \<open>choices\<close>), the
  object \<^verbatim>\<open>cacheRef.current\<close>, and what the environment holds: the clock in milliseconds,
  the pending tasks and the log of calls.  \<open>choices\<close> and \<open>cache\<close> are the own properties of
  the two objects; \<^verbatim>\<open>null\<close> in \<^verbatim>\<open>jikanData\<close> is \<open>Json JNull\<close>.
\<close>

record state =
  animeList :: "AnimeXml list"
  currentIndex :: nat
  jikanData :: js_value
  choices :: "js_string \<rightharpoonup> choice"
  likedShows :: "js_value list"
  isCooldown :: bool
  cache :: "js_string \<rightharpoonup> js_value"
  now :: nat
  tasks :: "task list"
  calls :: "call list"

text \<open>The state after mounting: the initial values of the \<^verbatim>\<open>useState\<close> and \<^verbatim>\<open>useRef\<close>
  hooks, and the mount effect waiting for the text of the export.\<close>

definition init :: state where
  "init = \<lparr> animeList = [], currentIndex = 0, jikanData = Json JNull, choices = Map.empty,
            likedShows = [], isCooldown = False, cache = Map.empty, now = 0,
            tasks = [LoadXml], calls = [] \<rparr>"

text \<open>
  The read \<^verbatim>\<open>cacheRef.current[id]\<close>.  The cache is a plain object (\<^verbatim>\<open>{}\<close>), so a name that
  is not an own property is looked up in \<^verbatim>\<open>Object.prototype\<close>: for the twelve names below
  the read gives a function (for \<^verbatim>\<open>__proto__\<close> the prototype itself), for any other name
  \<^verbatim>\<open>undefined\<close>.
\<close>

definition object_prototype_names :: "js_string list" where
  "object_prototype_names =
     map js [''constructor'', ''hasOwnProperty'', ''isPrototypeOf'', ''propertyIsEnumerable'',
             ''toLocaleString'', ''toString'', ''valueOf'', ''__proto__'',
             ''__defineGetter__'', ''__defineSetter__'', ''__lookupGetter__'',
             ''__lookupSetter__'']"

definition cache_get :: "(js_string \<rightharpoonup> js_value) \<Rightarrow> js_string \<Rightarrow> js_value" where
  "cache_get c ident =
     (case c ident of
        Some v \<Rightarrow> v
      | None \<Rightarrow> if ident \<in> set object_prototype_names then Inherited ident else Undefined)"

text \<open>
  What the service answers to one call.  \<open>Ok d\<close> is a 2xx response whose body parses to
  a value other than \<^verbatim>\<open>null\<close>; \<open>d\<close> is its property \<^verbatim>\<open>data\<close>, \<open>None\<close> when it has none
  (\<^verbatim>\<open>json.data\<close> is then \<^verbatim>\<open>undefined\<close>).  \<open>NotOk\<close> is another status.  \<open>Failed\<close> is a rejected
  \<^verbatim>\<open>fetch\<close> or \<^verbatim>\<open>res.json()\<close>, or the body \<^verbatim>\<open>null\<close>, on which \<^verbatim>\<open>json.data\<close> throws.  The code
  awaits \<^verbatim>\<open>fetch\<close> and, for a 2xx response, \<^verbatim>\<open>res.json()\<close>, and touches no state between
  the two; the answer is one event here, and a call is in flight until that event.
\<close>

datatype response = Ok "json option" | NotOk nat | Failed

definition data_value :: "json option \<Rightarrow> js_value" where
  "data_value d = (case d of None \<Rightarrow> Undefined | Some j \<Rightarrow> Json j)"

definition task_at :: "state \<Rightarrow> nat \<Rightarrow> task" where
  "task_at s k = (if k < length (tasks s) then tasks s ! k else Done)"

definition issue :: "nat \<Rightarrow> int \<Rightarrow> js_string \<Rightarrow> state \<Rightarrow> state" where
  "issue k n key s =
     s\<lparr>calls := calls s @ [\<lparr>call_at = now s, call_idNum = n, call_key = key, call_origin = k\<rparr>]\<rparr>"

subsection \<open>\<^verbatim>\<open>loadAnimeData\<close>\<close>

text \<open>Up to its \<^verbatim>\<open>await fetch\<close>: when the read of the cache is truthy its value goes to
  \<^verbatim>\<open>setJikanData\<close>, an identifier that is not a number returns, anything else starts the
  call and waits.\<close>

definition loadAnimeData :: "js_string \<Rightarrow> state \<Rightarrow> state" where
  "loadAnimeData ident s =
     (if truthy (cache_get (cache s) ident) then s\<lparr>jikanData := cache_get (cache s) ident\<rparr>
      else
        (case parseInt ident of
           None \<Rightarrow> s
         | Some idNum \<Rightarrow>
             (issue (length (tasks s)) idNum ident s)
               \<lparr>tasks := tasks s @ [FgFetch ident idNum]\<rparr>))"

text \<open>After the response: the body of the \<^verbatim>\<open>try\<close>, which stores \<^verbatim>\<open>json.data\<close> whatever it
  is, or the \<^verbatim>\<open>catch\<close>.  (A key that is written is one \<^verbatim>\<open>parseInt\<close> reads a number from, never
  one of the twelve names.)\<close>

definition loadAnimeData_resume :: "nat \<Rightarrow> js_string \<Rightarrow> response \<Rightarrow> state \<Rightarrow> state" where
  "loadAnimeData_resume k ident r s =
     (case r of
        Ok d \<Rightarrow>
          s\<lparr>cache := (cache s)(ident \<mapsto> data_value d), jikanData := data_value d,
            tasks := (tasks s)[k := Done]\<rparr>
      | _ \<Rightarrow> s\<lparr>jikanData := Json JNull, tasks := (tasks s)[k := Done]\<rparr>)"

subsection \<open>\<^verbatim>\<open>prefetchNext\<close>\<close>

text \<open>
  The \<^verbatim>\<open>for\<close> loop from index \<open>i\<close> up to its next \<^verbatim>\<open>await\<close>: positions beyond the end of
  the list, identifiers whose read of the cache is truthy and identifiers that are
  not numbers are passed by \<^verbatim>\<open>continue\<close>; at the first other position the loop waits
  900 ms.  \<open>c\<close> is the cache and \<open>t\<close> the time when the loop runs.
\<close>

function pf_scan :: "AnimeXml list \<Rightarrow> nat \<Rightarrow> nat \<Rightarrow> (js_string \<rightharpoonup> js_value) \<Rightarrow> nat \<Rightarrow> task" where
  "pf_scan l cur i c t =
     (if i < cur + 4 then
        (if i < length l then
           (let next = l ! i in
            if truthy (cache_get c (id_x next)) then pf_scan l cur (i + 1) c t
            else (case parseInt (id_x next) of
                    None \<Rightarrow> pf_scan l cur (i + 1) c t
                  | Some idNum \<Rightarrow> PfTimer l cur i next idNum (t + 900)))
         else pf_scan l cur (i + 1) c t)
      else Done)"
  by pat_completeness auto
termination
  by (relation "measure (\<lambda>(l, cur, i, c, t). cur + 4 - i)") auto

declare pf_scan.simps [simp del]

definition prefetchNext :: "state \<Rightarrow> state" where
  "prefetchNext s =
     s\<lparr>tasks := tasks s @
         [pf_scan (animeList s) (currentIndex s) (currentIndex s + 1) (cache s) (now s)]\<rparr>"

text \<open>The timer is over: the call starts.\<close>

definition prefetch_fetch :: "nat \<Rightarrow> AnimeXml list \<Rightarrow> nat \<Rightarrow> nat \<Rightarrow> AnimeXml \<Rightarrow> int \<Rightarrow> state \<Rightarrow> state" where
  "prefetch_fetch k l cur i next idNum s =
     (issue k idNum (id_x next) s)\<lparr>tasks := (tasks s)[k := PfFetch l cur i next]\<rparr>"

text \<open>After the response: for a 2xx response \<^verbatim>\<open>json.data\<close> is stored whatever it is, any
  other outcome is dropped, and the loop goes on with \<open>i + 1\<close>.\<close>

definition prefetch_resume :: "nat \<Rightarrow> AnimeXml list \<Rightarrow> nat \<Rightarrow> nat \<Rightarrow> AnimeXml \<Rightarrow> response \<Rightarrow> state \<Rightarrow> state" where
  "prefetch_resume k l cur i next r s =
     (let c = (case r of Ok d \<Rightarrow> (cache s)(id_x next \<mapsto> data_value d) | _ \<Rightarrow> cache s)
      in s\<lparr>cache := c, tasks := (tasks s)[k := pf_scan l cur (i + 1) c (now s)]\<rparr>)"

subsection \<open>The effect on \<^verbatim>\<open>[animeList, currentIndex]\<close>\<close>

definition effect :: "state \<Rightarrow> state" where
  "effect s =
     (if currentIndex s < length (animeList s)
      then prefetchNext (loadAnimeData (id_x (animeList s ! currentIndex s)) s)
      else s\<lparr>jikanData := Json JNull\<rparr>)"

subsection \<open>\<^verbatim>\<open>handleChoice\<close>\<close>

definition handleChoice :: "choice \<Rightarrow> state \<Rightarrow> state" where
  "handleChoice c s =
     (if isCooldown s then s
      else
        (let s1 = s\<lparr>isCooldown := True, tasks := tasks s @ [Cooldown (now s + 1000)]\<rparr>
         in if currentIndex s < length (animeList s) \<and> truthy (jikanData s) then
              s1\<lparr>choices := (choices s)(id_x (animeList s ! currentIndex s) \<mapsto> c),
                 likedShows := (if c = liked then likedShows s @ [jikanData s] else likedShows s),
                 currentIndex := currentIndex s + 1\<rparr>
            else s1))"

subsection \<open>\<^verbatim>\<open>handleFileUpload\<close>\<close>

text \<open>The \<^verbatim>\<open>onload\<close> callback, given the entries the parser found in the file.\<close>

definition handleFileUpload :: "AnimeXml list \<Rightarrow> (nat \<Rightarrow> real) \<Rightarrow> state \<Rightarrow> state" where
  "handleFileUpload parsed rnd s =
     (if parsed = [] then s
      else s\<lparr>animeList := shuffleArray rnd parsed, currentIndex := 0, jikanData := Json JNull,
             choices := Map.empty, likedShows := [], cache := Map.empty\<rparr>)"

section \<open>The event loop\<close>

text \<open>
  An event is what the environment does next: the export arrives (or fails to), a
  file is uploaded, a button is clicked, time passes, a timer that is due fires, a
  call is answered.  Each handler runs to completion on the committed state, and the
  effect runs after a handler that changed \<^verbatim>\<open>animeList\<close> or \<^verbatim>\<open>currentIndex\<close>; the effect
  has no cleanup, so work it started earlier goes on.  An event that names a task of
  the wrong kind, or a timer that is not due, does nothing.  The clock counts
  milliseconds; a timer fires no earlier than it is due.  An upload during which
  \<^verbatim>\<open>localStorage.setItem\<close> throws changes nothing and is no event.  \<^verbatim>\<open>confirmClear\<close>
  reloads the page: the run ends there, and the component starts again from \<open>init\<close>.
\<close>

datatype event =
    XmlLoaded "AnimeXml list option" "nat \<Rightarrow> real"
  | Upload "AnimeXml list" "nat \<Rightarrow> real"
  | Click choice
  | Advance nat
  | Fire nat
  | Respond nat response

definition step :: "event \<Rightarrow> state \<Rightarrow> state" where
  "step ev s =
     (case ev of
        XmlLoaded res rnd \<Rightarrow>
          (case task_at s 0 of
             LoadXml \<Rightarrow>
               (case res of
                  None \<Rightarrow> s\<lparr>tasks := (tasks s)[0 := Done]\<rparr>
                | Some parsed \<Rightarrow>
                    effect (s\<lparr>animeList := shuffleArray rnd parsed, tasks := (tasks s)[0 := Done]\<rparr>))
           | _ \<Rightarrow> s)
      | Upload parsed rnd \<Rightarrow>
          (if parsed = [] then handleFileUpload parsed rnd s
           else effect (handleFileUpload parsed rnd s))
      | Click c \<Rightarrow>
          (let s' = handleChoice c s
           in if currentIndex s' \<noteq> currentIndex s then effect s' else s')
      | Advance d \<Rightarrow> s\<lparr>now := now s + d\<rparr>
      | Fire k \<Rightarrow>
          (case task_at s k of
             Cooldown due \<Rightarrow>
               (if due \<le> now s then s\<lparr>isCooldown := False, tasks := (tasks s)[k := Done]\<rparr> else s)
           | PfTimer l cur i next idNum due \<Rightarrow>
               (if due \<le> now s then prefetch_fetch k l cur i next idNum s else s)
           | _ \<Rightarrow> s)
      | Respond k r \<Rightarrow>
          (case task_at s k of
             FgFetch ident idNum \<Rightarrow> loadAnimeData_resume k ident r s
           | PfFetch l cur i next \<Rightarrow> prefetch_resume k l cur i next r s
           | _ \<Rightarrow> s))"

fun run :: "event list \<Rightarrow> state \<Rightarrow> state" where
  "run [] s = s"
| "run (ev # evs) s = run evs (step ev s)"

text \<open>The identifiers with a call in flight, one entry per call.\<close>

fun task_in_flight :: "task \<Rightarrow> js_string list" where
  "task_in_flight (FgFetch ident idNum) = [ident]"
| "task_in_flight (PfFetch l cur i next) = [id_x next]"
| "task_in_flight _ = []"

definition in_flight :: "state \<Rightarrow> js_string list" where
  "in_flight s = concat (map task_in_flight (tasks s))"

section \<open>Notions the properties are stated with\<close>

text \<open>A position \<open>p\<close> of the list that \<^verbatim>\<open>prefetchNext\<close> does not pass by: it is inside the
  list, the read of the cache for its identifier is falsy and the identifier is a
  number.\<close>

definition wanted :: "AnimeXml list \<Rightarrow> (js_string \<rightharpoonup> js_value) \<Rightarrow> nat \<Rightarrow> bool" where
  "wanted l c p \<longleftrightarrow>
     p < length l \<and> \<not> truthy (cache_get c (id_x (l ! p))) \<and> parseInt (id_x (l ! p)) \<noteq> None"

text \<open>The events that load a list: a session is a run without an upload; the mount
  effect replaces the list without resetting anything.\<close>

fun is_upload :: "event \<Rightarrow> bool" where
  "is_upload (Upload parsed rnd) = True"
| "is_upload _ = False"


text \<open>An event that is not a 2xx answer without truthy \<^verbatim>\<open>data\<close>.\<close>

fun answers_data :: "event \<Rightarrow> bool" where
  "answers_data (Respond k (Ok d)) = truthy (data_value d)"
| "answers_data _ = True"

text \<open>The identifiers for which a prefetch pass sits in its 900 ms delay, its call
  not yet started.\<close>

fun task_waiting :: "task \<Rightarrow> js_string list" where
  "task_waiting (PfTimer l cur i next idNum due) = [id_x next]"
| "task_waiting _ = []"

definition pf_waiting :: "state \<Rightarrow> js_string list" where
  "pf_waiting s = concat (map task_waiting (tasks s))"

text \<open>The calls of the log that resolve one identifier.\<close>

definition calls_for :: "js_string \<Rightarrow> state \<Rightarrow> call list" where
  "calls_for ident s = filter (\<lambda>c. call_key c = ident) (calls s)"

text \<open>Two calls of the same task start at least 900 ms apart.\<close>

definition spaced :: "call list \<Rightarrow> bool" where
  "spaced cs \<longleftrightarrow>
     (\<forall>b < length cs. \<forall>a < b.
        call_origin (cs ! a) = call_origin (cs ! b) \<longrightarrow> call_at (cs ! a) + 900 \<le> call_at (cs ! b))"



text \<open>The due times of the cooldown timers that have not fired.\<close>

fun task_cooldown :: "task \<Rightarrow> nat list" where
  "task_cooldown (Cooldown due) = [due]"
| "task_cooldown _ = []"

definition cooldowns :: "state \<Rightarrow> nat list" where
  "cooldowns s = concat (map task_cooldown (tasks s))"

subsection \<open>Sample data\<close>

definition entry :: "string \<Rightarrow> AnimeXml" where
  "entry ident = \<lparr>id_x = js ident, title_x = js ''Title'', status_x = js ''Completed''\<rparr>"

definition meta :: "int \<Rightarrow> real \<Rightarrow> json" where
  "meta n sc =
     anime_json
       \<lparr>mal_id = n, title = js ''Title'', title_english = None,
        images = \<lparr>jpg = \<lparr>image_url = js ''https://cdn/x.jpg'', large_image_url = None\<rparr>\<rparr>,
        synopsis = None, episodes = Some 12, type = Some (js ''TV''), status = None,
        score = Some sc\<rparr>"

text \<open>Draws of \<^verbatim>\<open>Math.random()\<close> under which \<^verbatim>\<open>shuffleArray\<close> swaps every element with
  itself, and draws under which it moves every element.\<close>

definition keep_order :: "nat \<Rightarrow> real" where
  "keep_order i = 99 / 100"

definition all_zero :: "nat \<Rightarrow> real" where
  "all_zero i = 0"

subsection \<open>Invariants of the event loop\<close>


text \<open>The read of the cache for \<open>ident\<close> is \<open>v\<close>, no call for \<open>ident\<close> is in flight and no
  pass waits to start one; the calls made for it are \<open>cs\<close>.\<close>

definition quiet :: "js_string \<Rightarrow> js_value \<Rightarrow> call list \<Rightarrow> state \<Rightarrow> bool" where
  "quiet ident v cs s \<longleftrightarrow>
     truthy v \<and> cache_get (cache s) ident = v \<and> ident \<notin> set (in_flight s) \<and>
     ident \<notin> set (pf_waiting s) \<and> calls_for ident s = cs"

text \<open>The read of the cache for \<open>ident\<close> is truthy and no pass waits to start a call for
  it; the calls made for it are \<open>cs\<close>.\<close>

definition settled :: "js_string \<Rightarrow> call list \<Rightarrow> state \<Rightarrow> bool" where
  "settled ident cs s \<longleftrightarrow>
     truthy (cache_get (cache s) ident) \<and> ident \<notin> set (pf_waiting s) \<and> calls_for ident s = cs"

definition paced :: "state \<Rightarrow> bool" where
  "paced s \<longleftrightarrow>
     (\<forall>c \<in> set (calls s). call_at c \<le> now s \<and> call_origin c < length (tasks s)) \<and>
     (\<forall>k < length (tasks s). \<forall>l cur i next n due.
        tasks s ! k = PfTimer l cur i next n due \<longrightarrow>
        (\<forall>c \<in> set (calls s). call_origin c = k \<longrightarrow> call_at c + 900 \<le> due)) \<and>
     spaced (calls s)"

definition cooldown_inv :: "state \<Rightarrow> bool" where
  "cooldown_inv s \<longleftrightarrow> length (cooldowns s) = (if isCooldown s then 1 else 0)"

definition in_window :: "nat \<Rightarrow> state \<Rightarrow> bool" where
  "in_window T s \<longleftrightarrow> isCooldown s \<and> (\<forall>due \<in> set (cooldowns s). T \<le> due)"


section \<open>The prefetch loop\<close>

lemma pf_scan_unfold:
  "pf_scan l cur i c t =
     (if i < cur + 4 then
        (if wanted l c i then PfTimer l cur i (l ! i) (the (parseInt (id_x (l ! i)))) (t + 900)
         else pf_scan l cur (i + 1) c t)
      else Done)"
  by (subst pf_scan.simps) (auto simp: Let_def wanted_def split: option.splits)

lemma pf_scan_find:
  "pf_scan l cur i c t =
     (case find (wanted l c) [i ..< cur + 4] of
        None \<Rightarrow> Done
      | Some j \<Rightarrow> PfTimer l cur j (l ! j) (the (parseInt (id_x (l ! j)))) (t + 900))"
proof (induction "cur + 4 - i" arbitrary: i)
  case 0
  then show ?case by (subst pf_scan_unfold) simp
next
  case (Suc m)
  then have in_window: "i < cur + 4" and m: "m = cur + 4 - (i + 1)" by auto
  from in_window have upt: "[i ..< cur + 4] = i # [i + 1 ..< cur + 4]"
    by (simp add: upt_conv_Cons)
  show ?case
    using in_window Suc.hyps(1) [OF m]
    by (subst pf_scan_unfold) (simp add: upt)
qed

lemma pf_scan_cases:
  "pf_scan l cur i c t = Done \<or>
   (\<exists>j n. i \<le> j \<and> j < cur + 4 \<and> j < length l \<and> \<not> truthy (cache_get c (id_x (l ! j))) \<and>
      parseInt (id_x (l ! j)) = Some n \<and>
      pf_scan l cur i c t = PfTimer l cur j (l ! j) n (t + 900))"
proof (cases "find (wanted l c) [i ..< cur + 4]")
  case None
  then show ?thesis by (simp add: pf_scan_find)
next
  case (Some j)
  then have "wanted l c j" and "j \<in> set [i ..< cur + 4]"
    by (auto simp: find_Some_iff)
  with Some show ?thesis
    by (auto simp: pf_scan_find wanted_def)
qed

section \<open>What each function leaves alone\<close>

lemma issue_fields [simp]:
  "animeList (issue k n key s) = animeList s"
  "currentIndex (issue k n key s) = currentIndex s"
  "jikanData (issue k n key s) = jikanData s"
  "choices (issue k n key s) = choices s"
  "likedShows (issue k n key s) = likedShows s"
  "isCooldown (issue k n key s) = isCooldown s"
  "cache (issue k n key s) = cache s"
  "now (issue k n key s) = now s"
  "tasks (issue k n key s) = tasks s"
  "calls (issue k n key s) =
     calls s @ [\<lparr>call_at = now s, call_idNum = n, call_key = key, call_origin = k\<rparr>]"
  by (simp_all add: issue_def)

lemma loadAnimeData_fields [simp]:
  "animeList (loadAnimeData ident s) = animeList s"
  "currentIndex (loadAnimeData ident s) = currentIndex s"
  "choices (loadAnimeData ident s) = choices s"
  "likedShows (loadAnimeData ident s) = likedShows s"
  "isCooldown (loadAnimeData ident s) = isCooldown s"
  "cache (loadAnimeData ident s) = cache s"
  "now (loadAnimeData ident s) = now s"
  by (simp_all add: loadAnimeData_def split: option.splits)

lemma prefetchNext_fields [simp]:
  "animeList (prefetchNext s) = animeList s"
  "currentIndex (prefetchNext s) = currentIndex s"
  "jikanData (prefetchNext s) = jikanData s"
  "choices (prefetchNext s) = choices s"
  "likedShows (prefetchNext s) = likedShows s"
  "isCooldown (prefetchNext s) = isCooldown s"
  "cache (prefetchNext s) = cache s"
  "now (prefetchNext s) = now s"
  "calls (prefetchNext s) = calls s"
  by (simp_all add: prefetchNext_def)

lemma effect_fields [simp]:
  "animeList (effect s) = animeList s"
  "currentIndex (effect s) = currentIndex s"
  "choices (effect s) = choices s"
  "likedShows (effect s) = likedShows s"
  "isCooldown (effect s) = isCooldown s"
  "cache (effect s) = cache s"
  "now (effect s) = now s"
  by (simp_all add: effect_def)

lemma handleChoice_fields [simp]:
  "animeList (handleChoice c s) = animeList s"
  "jikanData (handleChoice c s) = jikanData s"
  "cache (handleChoice c s) = cache s"
  "now (handleChoice c s) = now s"
  "calls (handleChoice c s) = calls s"
  by (simp_all add: handleChoice_def Let_def split: option.splits)

lemma handleFileUpload_fields [simp]:
  "isCooldown (handleFileUpload parsed rnd s) = isCooldown s"
  "now (handleFileUpload parsed rnd s) = now s"
  "tasks (handleFileUpload parsed rnd s) = tasks s"
  "calls (handleFileUpload parsed rnd s) = calls s"
  by (simp_all add: handleFileUpload_def)

lemma loadAnimeData_resume_fields [simp]:
  "animeList (loadAnimeData_resume k ident r s) = animeList s"
  "currentIndex (loadAnimeData_resume k ident r s) = currentIndex s"
  "choices (loadAnimeData_resume k ident r s) = choices s"
  "likedShows (loadAnimeData_resume k ident r s) = likedShows s"
  "isCooldown (loadAnimeData_resume k ident r s) = isCooldown s"
  "now (loadAnimeData_resume k ident r s) = now s"
  "calls (loadAnimeData_resume k ident r s) = calls s"
  "tasks (loadAnimeData_resume k ident r s) = (tasks s)[k := Done]"
  by (simp_all add: loadAnimeData_resume_def split: response.splits)

lemma prefetch_fetch_fields [simp]:
  "animeList (prefetch_fetch k l cur i next n s) = animeList s"
  "currentIndex (prefetch_fetch k l cur i next n s) = currentIndex s"
  "jikanData (prefetch_fetch k l cur i next n s) = jikanData s"
  "choices (prefetch_fetch k l cur i next n s) = choices s"
  "likedShows (prefetch_fetch k l cur i next n s) = likedShows s"
  "isCooldown (prefetch_fetch k l cur i next n s) = isCooldown s"
  "cache (prefetch_fetch k l cur i next n s) = cache s"
  "now (prefetch_fetch k l cur i next n s) = now s"
  "tasks (prefetch_fetch k l cur i next n s) = (tasks s)[k := PfFetch l cur i next]"
  "calls (prefetch_fetch k l cur i next n s) =
     calls s @ [\<lparr>call_at = now s, call_idNum = n, call_key = id_x next, call_origin = k\<rparr>]"
  by (simp_all add: prefetch_fetch_def)

lemma prefetch_resume_fields [simp]:
  "animeList (prefetch_resume k l cur i next r s) = animeList s"
  "currentIndex (prefetch_resume k l cur i next r s) = currentIndex s"
  "jikanData (prefetch_resume k l cur i next r s) = jikanData s"
  "choices (prefetch_resume k l cur i next r s) = choices s"
  "likedShows (prefetch_resume k l cur i next r s) = likedShows s"
  "isCooldown (prefetch_resume k l cur i next r s) = isCooldown s"
  "now (prefetch_resume k l cur i next r s) = now s"
  "calls (prefetch_resume k l cur i next r s) = calls s"
  "cache (prefetch_resume k l cur i next r s) =
     (case r of Ok d \<Rightarrow> (cache s)(id_x next \<mapsto> data_value d) | _ \<Rightarrow> cache s)"
  "tasks (prefetch_resume k l cur i next r s) =
     (tasks s)[k := pf_scan l cur (i + 1)
        (case r of Ok d \<Rightarrow> (cache s)(id_x next \<mapsto> data_value d) | _ \<Rightarrow> cache s) (now s)]"
  by (simp_all add: prefetch_resume_def Let_def)

lemma mem_updateD: "x \<in> set (xs[k := y]) \<Longrightarrow> x = y \<or> x \<in> set xs"
  using set_update_subset_insert [of xs k y] by auto

lemma task_at_eq: "task_at s k = t \<Longrightarrow> t \<noteq> Done \<Longrightarrow> k < length (tasks s) \<and> tasks s ! k = t"
  by (auto simp: task_at_def split: if_splits)

section \<open>Reasoning about one step and about runs\<close>

lemma step_rule:
  assumes "P s"
    and "\<And>d. ev = Advance d \<Longrightarrow> P (s\<lparr>now := now s + d\<rparr>)"
    and "\<And>s'. P s' \<Longrightarrow> P (effect s')"
    and "\<And>c. ev = Click c \<Longrightarrow> P (handleChoice c s)"
    and "\<And>parsed rnd. ev = Upload parsed rnd \<Longrightarrow> P (handleFileUpload parsed rnd s)"
    and "\<And>rnd. ev = XmlLoaded None rnd \<Longrightarrow> task_at s 0 = LoadXml \<Longrightarrow>
           P (s\<lparr>tasks := (tasks s)[0 := Done]\<rparr>)"
    and "\<And>parsed rnd. ev = XmlLoaded (Some parsed) rnd \<Longrightarrow> task_at s 0 = LoadXml \<Longrightarrow>
           P (s\<lparr>animeList := shuffleArray rnd parsed, tasks := (tasks s)[0 := Done]\<rparr>)"
    and "\<And>k due. ev = Fire k \<Longrightarrow> task_at s k = Cooldown due \<Longrightarrow> due \<le> now s \<Longrightarrow>
           P (s\<lparr>isCooldown := False, tasks := (tasks s)[k := Done]\<rparr>)"
    and "\<And>k l cur i next n due. ev = Fire k \<Longrightarrow> task_at s k = PfTimer l cur i next n due \<Longrightarrow>
           due \<le> now s \<Longrightarrow> P (prefetch_fetch k l cur i next n s)"
    and "\<And>k ident n r. ev = Respond k r \<Longrightarrow> task_at s k = FgFetch ident n \<Longrightarrow>
           P (loadAnimeData_resume k ident r s)"
    and "\<And>k l cur i next r. ev = Respond k r \<Longrightarrow> task_at s k = PfFetch l cur i next \<Longrightarrow>
           P (prefetch_resume k l cur i next r s)"
  shows "P (step ev s)"
proof (cases ev)
  case (XmlLoaded res rnd)
  with assms(1,3,6,7) show ?thesis
    by (cases "task_at s 0"; cases res) (simp_all add: step_def)
next
  case (Upload parsed rnd)
  with assms(1,3,5) show ?thesis
    by (cases "parsed = []") (simp_all add: step_def)
next
  case (Click c)
  with assms(1,3,4) show ?thesis
    by (simp add: step_def Let_def)
next
  case (Advance d)
  with assms(2) show ?thesis
    by (simp add: step_def)
next
  case (Fire k)
  with assms(1,8,9) show ?thesis
    by (cases "task_at s k") (simp_all add: step_def)
next
  case (Respond k r)
  with assms(1,10,11) show ?thesis
    by (cases "task_at s k") (simp_all add: step_def)
qed

lemma run_rule:
  assumes "P s" and "\<And>ev s'. ev \<in> set evs \<Longrightarrow> P s' \<Longrightarrow> P (step ev s')"
  shows "P (run evs s)"
  using assms by (induction evs arbitrary: s) auto

lemma run_append: "run (evs @ evs') s = run evs' (run evs s)"
  by (induction evs arbitrary: s) auto

section \<open>The cache within a session\<close>

lemma cache_get_upd:
  "cache_get (c(key \<mapsto> v)) ident = (if ident = key then v else cache_get c ident)"
  by (simp add: cache_get_def)




section \<open>Identifiers that are not numbers\<close>














section \<open>Lists collected from the tasks\<close>

lemma task_at_waiting:
  "task_at s k = PfTimer l cur i next n due \<Longrightarrow> id_x next \<in> set (pf_waiting s)"
  by (auto simp: pf_waiting_def dest!: task_at_eq intro!: bexI [where x = "tasks s ! k"] nth_mem)

lemma task_at_in_flight:
  "task_at s k = FgFetch ident n \<Longrightarrow> ident \<in> set (in_flight s)"
  "task_at s k = PfFetch l cur i next \<Longrightarrow> id_x next \<in> set (in_flight s)"
  by (auto simp: in_flight_def dest!: task_at_eq intro!: bexI [where x = "tasks s ! k"] nth_mem)

lemma pf_scan_waiting:
  "truthy (cache_get c ident) \<Longrightarrow> ident \<notin> set (task_waiting (pf_scan l cur i c t))"
  using pf_scan_cases [of l cur i c t] by auto

lemma pf_scan_in_flight: "task_in_flight (pf_scan l cur i c t) = []"
  using pf_scan_cases [of l cur i c t] by auto

section \<open>A cached identifier is not fetched again\<close>

lemma settled_loadAnimeData: "settled ident cs s \<Longrightarrow> settled ident cs (loadAnimeData key s)"
  by (auto simp: settled_def loadAnimeData_def pf_waiting_def calls_for_def split: option.splits)

lemma settled_prefetchNext: "settled ident cs s \<Longrightarrow> settled ident cs (prefetchNext s)"
  by (auto simp: settled_def prefetchNext_def pf_waiting_def calls_for_def pf_scan_waiting)

lemma settled_effect: "settled ident cs s \<Longrightarrow> settled ident cs (effect s)"
  by (auto simp: effect_def settled_prefetchNext settled_loadAnimeData)
     (simp add: settled_def pf_waiting_def calls_for_def)

lemma settled_handleChoice: "settled ident cs s \<Longrightarrow> settled ident cs (handleChoice c s)"
  by (auto simp: settled_def handleChoice_def Let_def pf_waiting_def calls_for_def)

lemma settled_prefetch_fetch:
  assumes "settled ident cs s" and "task_at s k = PfTimer l cur i next n due"
  shows "settled ident cs (prefetch_fetch k l cur i next n s)"
proof -
  from assms have "id_x next \<noteq> ident"
    using task_at_waiting [of s k] by (auto simp: settled_def)
  with assms(1) show ?thesis
    by (auto simp: settled_def pf_waiting_def calls_for_def dest!: mem_updateD)
qed

lemma settled_loadAnimeData_resume:
  assumes "settled ident cs s" and "answers_data (Respond k r)"
  shows "settled ident cs (loadAnimeData_resume k key r s)"
  using assms
  by (cases r) (auto simp: settled_def loadAnimeData_resume_def pf_waiting_def calls_for_def
      cache_get_upd dest!: mem_updateD)

lemma settled_prefetch_resume:
  assumes "settled ident cs s" and "answers_data (Respond k r)"
  shows "settled ident cs (prefetch_resume k l cur i next r s)"
proof -
  let ?c = "case r of Ok d \<Rightarrow> (cache s)(id_x next \<mapsto> data_value d) | _ \<Rightarrow> cache s"
  from assms have c: "truthy (cache_get ?c ident)"
    by (cases r) (auto simp: settled_def cache_get_upd)
  then have "ident \<notin> set (task_waiting (pf_scan l cur (i + 1) ?c (now s)))"
    by (rule pf_scan_waiting)
  with assms(1) c show ?thesis
    by (auto simp: settled_def pf_waiting_def calls_for_def dest!: mem_updateD)
qed

lemma settled_step:
  assumes "settled ident cs s" and "\<not> is_upload ev" and "answers_data ev"
  shows "settled ident cs (step ev s)"
proof (rule step_rule [where P = "settled ident cs"], goal_cases)
  case 1
  show ?case by (rule assms)
next
  case (2 d)
  from assms show ?case by (simp add: settled_def pf_waiting_def calls_for_def)
next
  case (3 s')
  then show ?case by (rule settled_effect)
next
  case (4 c)
  from assms show ?case by (simp add: settled_handleChoice)
next
  case (5 parsed rnd)
  with assms show ?case by simp
next
  case (6 rnd)
  from assms show ?case
    by (auto simp: settled_def pf_waiting_def calls_for_def dest!: mem_updateD)
next
  case (7 parsed rnd)
  from assms show ?case
    by (auto simp: settled_def pf_waiting_def calls_for_def dest!: mem_updateD)
next
  case (8 k due)
  from assms show ?case
    by (auto simp: settled_def pf_waiting_def calls_for_def dest!: mem_updateD)
next
  case (9 k l cur i "next" n due)
  with assms show ?case by (simp add: settled_prefetch_fetch)
next
  case (10 k key n r)
  with assms show ?case by (simp add: settled_loadAnimeData_resume)
next
  case (11 k l cur i "next" r)
  with assms show ?case by (simp add: settled_prefetch_resume)
qed

lemma settled_run:
  assumes "settled ident cs s" and "\<forall>ev \<in> set evs. \<not> is_upload ev \<and> answers_data ev"
  shows "settled ident cs (run evs s)"
  using assms(1)
  by (rule run_rule [where P = "settled ident cs"]) (use assms(2) in \<open>simp add: settled_step\<close>)

section \<open>An entry with no call pending for it does not change\<close>

lemma quiet_loadAnimeData: "quiet ident v cs s \<Longrightarrow> quiet ident v cs (loadAnimeData key s)"
  by (auto simp: quiet_def loadAnimeData_def pf_waiting_def in_flight_def calls_for_def
      split: option.splits)

lemma quiet_prefetchNext: "quiet ident v cs s \<Longrightarrow> quiet ident v cs (prefetchNext s)"
  by (auto simp: quiet_def prefetchNext_def pf_waiting_def in_flight_def calls_for_def
      pf_scan_waiting pf_scan_in_flight)

lemma quiet_effect: "quiet ident v cs s \<Longrightarrow> quiet ident v cs (effect s)"
  by (auto simp: effect_def quiet_prefetchNext quiet_loadAnimeData)
     (simp add: quiet_def pf_waiting_def in_flight_def calls_for_def)

lemma quiet_handleChoice: "quiet ident v cs s \<Longrightarrow> quiet ident v cs (handleChoice c s)"
  by (auto simp: quiet_def handleChoice_def Let_def pf_waiting_def in_flight_def calls_for_def)

lemma quiet_finish: "quiet ident v cs s \<Longrightarrow> quiet ident v cs (s\<lparr>tasks := (tasks s)[k := Done]\<rparr>)"
  by (auto simp: quiet_def pf_waiting_def in_flight_def calls_for_def dest!: mem_updateD)

lemma quiet_prefetch_fetch:
  assumes "quiet ident v cs s" and "task_at s k = PfTimer l cur i next n due"
  shows "quiet ident v cs (prefetch_fetch k l cur i next n s)"
proof -
  from assms have "id_x next \<noteq> ident"
    using task_at_waiting [of s k] by (auto simp: quiet_def)
  with assms(1) show ?thesis
    by (auto simp: quiet_def pf_waiting_def in_flight_def calls_for_def dest!: mem_updateD)
qed

lemma quiet_loadAnimeData_resume:
  assumes "quiet ident v cs s" and "task_at s k = FgFetch key n"
  shows "quiet ident v cs (loadAnimeData_resume k key r s)"
proof -
  from assms have "key \<noteq> ident"
    using task_at_in_flight(1) [of s k] by (auto simp: quiet_def)
  with assms(1) show ?thesis
    by (cases r) (auto simp: quiet_def loadAnimeData_resume_def pf_waiting_def in_flight_def
        calls_for_def cache_get_upd dest!: mem_updateD)
qed

lemma quiet_prefetch_resume:
  assumes "quiet ident v cs s" and "task_at s k = PfFetch l cur i next"
  shows "quiet ident v cs (prefetch_resume k l cur i next r s)"
proof -
  let ?c = "case r of Ok d \<Rightarrow> (cache s)(id_x next \<mapsto> data_value d) | _ \<Rightarrow> cache s"
  from assms have ne: "id_x next \<noteq> ident"
    using task_at_in_flight(2) [of s k] by (auto simp: quiet_def)
  with assms(1) have c: "cache_get ?c ident = v" and v: "truthy v"
    by (cases r; simp add: quiet_def cache_get_upd)+
  then have "ident \<notin> set (task_waiting (pf_scan l cur (i + 1) ?c (now s)))"
    by (intro pf_scan_waiting) simp
  with assms(1) c v show ?thesis
    by (auto simp: quiet_def pf_waiting_def in_flight_def calls_for_def pf_scan_in_flight
        dest!: mem_updateD)
qed

lemma quiet_step:
  assumes "quiet ident v cs s" and "\<not> is_upload ev"
  shows "quiet ident v cs (step ev s)"
proof (rule step_rule [where P = "quiet ident v cs"], goal_cases)
  case 1
  show ?case by (rule assms)
next
  case (2 d)
  from assms show ?case by (simp add: quiet_def pf_waiting_def in_flight_def calls_for_def)
next
  case (3 s')
  then show ?case by (rule quiet_effect)
next
  case (4 c)
  from assms show ?case by (simp add: quiet_handleChoice)
next
  case (5 parsed rnd)
  with assms show ?case by simp
next
  case (6 rnd)
  from assms show ?case by (simp add: quiet_finish)
next
  case (7 parsed rnd)
  from quiet_finish [OF assms(1), of 0] show ?case
    by (simp add: quiet_def pf_waiting_def in_flight_def calls_for_def)
next
  case (8 k due)
  from quiet_finish [OF assms(1), of k] show ?case
    by (simp add: quiet_def pf_waiting_def in_flight_def calls_for_def)
next
  case (9 k l cur i "next" n due)
  with assms show ?case by (simp add: quiet_prefetch_fetch)
next
  case (10 k key n r)
  with assms show ?case by (simp add: quiet_loadAnimeData_resume)
next
  case (11 k l cur i "next" r)
  with assms show ?case by (simp add: quiet_prefetch_resume)
qed

lemma quiet_run:
  assumes "quiet ident v cs s" and "\<forall>ev \<in> set evs. \<not> is_upload ev"
  shows "quiet ident v cs (run evs s)"
  using assms(1)
  by (rule run_rule [where P = "quiet ident v cs"]) (use assms(2) in \<open>simp add: quiet_step\<close>)

section \<open>The delay inside one prefetch pass\<close>

lemma spaced_snoc:
  "spaced (cs @ [c]) \<longleftrightarrow>
     spaced cs \<and> (\<forall>a \<in> set cs. call_origin a = call_origin c \<longrightarrow> call_at a + 900 \<le> call_at c)"
proof
  assume sp: "spaced (cs @ [c])"
  have "spaced cs"
    unfolding spaced_def
  proof (intro allI impI)
    fix b a assume "b < length cs" "a < b" "call_origin (cs ! a) = call_origin (cs ! b)"
    with sp [unfolded spaced_def, rule_format, of b a]
    show "call_at (cs ! a) + 900 \<le> call_at (cs ! b)"
      by (simp add: nth_append)
  qed
  moreover have "\<forall>a \<in> set cs. call_origin a = call_origin c \<longrightarrow> call_at a + 900 \<le> call_at c"
  proof (intro ballI impI)
    fix a assume "a \<in> set cs" "call_origin a = call_origin c"
    then obtain p where "p < length cs" "cs ! p = a" by (auto simp: in_set_conv_nth)
    with sp [unfolded spaced_def, rule_format, of "length cs" p] \<open>call_origin a = call_origin c\<close>
    show "call_at a + 900 \<le> call_at c"
      by (simp add: nth_append)
  qed
  ultimately show "spaced cs \<and> (\<forall>a \<in> set cs. call_origin a = call_origin c \<longrightarrow> call_at a + 900 \<le> call_at c)"
    by simp
next
  assume h: "spaced cs \<and> (\<forall>a \<in> set cs. call_origin a = call_origin c \<longrightarrow> call_at a + 900 \<le> call_at c)"
  show "spaced (cs @ [c])"
    unfolding spaced_def
  proof (intro allI impI)
    fix b a
    assume b: "b < length (cs @ [c])" and a: "a < b"
      and o: "call_origin ((cs @ [c]) ! a) = call_origin ((cs @ [c]) ! b)"
    show "call_at ((cs @ [c]) ! a) + 900 \<le> call_at ((cs @ [c]) ! b)"
    proof (cases "b < length cs")
      case True
      with a o h show ?thesis by (simp add: nth_append spaced_def)
    next
      case False
      with b have "b = length cs" by simp
      with a o h show ?thesis by (simp add: nth_append)
    qed
  qed
qed

lemma nth_updateD:
  "(xs[k := y]) ! j = t \<Longrightarrow> (j = k \<and> k < length xs \<and> t = y) \<or> xs ! j = t"
proof (cases "k < length xs")
  case True
  assume "(xs[k := y]) ! j = t"
  with True show ?thesis by (auto simp: nth_list_update split: if_splits)
next
  case False
  assume "(xs[k := y]) ! j = t"
  with False show ?thesis by (simp add: list_update_beyond not_less)
qed

lemma paced_loadAnimeData: "paced s \<Longrightarrow> paced (loadAnimeData ident s)"
  by (auto simp: paced_def loadAnimeData_def spaced_snoc nth_append split: option.splits)

lemma paced_prefetchNext: "paced s \<Longrightarrow> paced (prefetchNext s)"
  by (auto simp: paced_def prefetchNext_def nth_append less_Suc_eq)

lemma paced_effect: "paced s \<Longrightarrow> paced (effect s)"
  by (auto simp: effect_def paced_prefetchNext paced_loadAnimeData) (simp add: paced_def)

lemma paced_handleChoice: "paced s \<Longrightarrow> paced (handleChoice c s)"
  by (auto simp: paced_def handleChoice_def Let_def nth_append less_Suc_eq split: option.splits)

lemma paced_handleFileUpload: "paced s \<Longrightarrow> paced (handleFileUpload parsed rnd s)"
  by (auto simp: paced_def handleFileUpload_def)

lemma paced_finish:
  "paced s \<Longrightarrow> paced (s\<lparr>tasks := (tasks s)[k := Done]\<rparr>)"
  by (auto simp: paced_def dest!: nth_updateD)

lemma paced_prefetch_fetch:
  assumes "paced s" and "task_at s k = PfTimer l cur i next n due" and "due \<le> now s"
  shows "paced (prefetch_fetch k l cur i next n s)"
proof -
  from assms(2) have k: "k < length (tasks s)" "tasks s ! k = PfTimer l cur i next n due"
    by (auto dest: task_at_eq)
  from assms(1) have logged: "\<forall>c \<in> set (calls s). call_at c \<le> now s \<and> call_origin c < length (tasks s)"
    and timers: "\<And>k' l' cur' i' next' n' due' c. k' < length (tasks s) \<Longrightarrow>
        tasks s ! k' = PfTimer l' cur' i' next' n' due' \<Longrightarrow> c \<in> set (calls s) \<Longrightarrow>
        call_origin c = k' \<Longrightarrow> call_at c + 900 \<le> due'"
    and sp: "spaced (calls s)"
    unfolding paced_def by blast+
  have old: "call_at c + 900 \<le> now s" if "c \<in> set (calls s)" "call_origin c = k" for c
    using timers [OF k that] assms(3) by simp
  have 1: "\<forall>c \<in> set (calls (prefetch_fetch k l cur i next n s)).
      call_at c \<le> now (prefetch_fetch k l cur i next n s) \<and>
      call_origin c < length (tasks (prefetch_fetch k l cur i next n s))"
    using logged k by auto
  have 2: "call_at c + 900 \<le> due'"
    if "k' < length (tasks (prefetch_fetch k l cur i next n s))"
      "tasks (prefetch_fetch k l cur i next n s) ! k' = PfTimer l' cur' i' next' n' due'"
      "c \<in> set (calls (prefetch_fetch k l cur i next n s))" "call_origin c = k'"
    for k' l' cur' i' next' n' due' c
  proof -
    from that(1,2) k have ne: "k' \<noteq> k" and t: "tasks s ! k' = PfTimer l' cur' i' next' n' due'"
      and lt: "k' < length (tasks s)"
      by (auto simp: nth_list_update split: if_splits)
    from that(3,4) ne have "c \<in> set (calls s)" by auto
    with timers [OF lt t] that(4) show ?thesis by simp
  qed
  have 3: "spaced (calls (prefetch_fetch k l cur i next n s))"
    using sp old by (simp add: spaced_snoc)
  from 1 2 3 show ?thesis
    unfolding paced_def by blast
qed

lemma paced_loadAnimeData_resume: "paced s \<Longrightarrow> paced (loadAnimeData_resume k ident r s)"
  by (cases r) (auto simp: paced_def loadAnimeData_resume_def dest!: nth_updateD)

lemma paced_prefetch_resume:
  assumes "paced s"
  shows "paced (prefetch_resume k l cur i next r s)"
proof -
  let ?c = "case r of Ok d \<Rightarrow> (cache s)(id_x next \<mapsto> data_value d) | _ \<Rightarrow> cache s"
  let ?s' = "prefetch_resume k l cur i next r s"
  have scan: "pf_scan l cur (i + 1) ?c (now s) = PfTimer l' cur' i' next' n' due' \<Longrightarrow> due' = now s + 900"
    for l' cur' i' next' n' due'
    using pf_scan_cases [of l cur "i + 1" ?c "now s"] by auto
  from assms have logged: "\<forall>c \<in> set (calls s). call_at c \<le> now s \<and> call_origin c < length (tasks s)"
    and timers: "\<And>k' l' cur' i' next' n' due' c. k' < length (tasks s) \<Longrightarrow>
        tasks s ! k' = PfTimer l' cur' i' next' n' due' \<Longrightarrow> c \<in> set (calls s) \<Longrightarrow>
        call_origin c = k' \<Longrightarrow> call_at c + 900 \<le> due'"
    and sp: "spaced (calls s)"
    unfolding paced_def by blast+
  have 1: "\<forall>c \<in> set (calls ?s'). call_at c \<le> now ?s' \<and> call_origin c < length (tasks ?s')"
    using logged by auto
  have 2: "call_at c + 900 \<le> due'"
    if "k' < length (tasks ?s')" "tasks ?s' ! k' = PfTimer l' cur' i' next' n' due'"
      "c \<in> set (calls ?s')" "call_origin c = k'"
    for k' l' cur' i' next' n' due' c
  proof (cases "k' = k")
    case True
    with that(1,2) have "pf_scan l cur (i + 1) ?c (now s) = PfTimer l' cur' i' next' n' due'"
      by (simp add: nth_list_update)
    then have "due' = now s + 900" by (rule scan)
    with logged that(3) show ?thesis by auto
  next
    case False
    with that(1,2) have "k' < length (tasks s)" "tasks s ! k' = PfTimer l' cur' i' next' n' due'"
      by (auto simp: nth_list_update)
    from timers [OF this] that(3,4) show ?thesis by simp
  qed
  have 3: "spaced (calls ?s')"
    using sp by simp
  from 1 2 3 show ?thesis
    unfolding paced_def by blast
qed

lemma paced_step:
  assumes "paced s"
  shows "paced (step ev s)"
proof (rule step_rule [where P = paced], goal_cases)
  case 1
  show ?case by (rule assms)
next
  case (2 d)
  from assms show ?case by (auto simp: paced_def)
next
  case (3 s')
  then show ?case by (rule paced_effect)
next
  case (4 c)
  from assms show ?case by (rule paced_handleChoice)
next
  case (5 parsed rnd)
  from assms show ?case by (rule paced_handleFileUpload)
next
  case (6 rnd)
  from assms show ?case by (rule paced_finish)
next
  case (7 parsed rnd)
  from paced_finish [OF assms, of 0] show ?case by (simp add: paced_def)
next
  case (8 k due)
  from paced_finish [OF assms, of k] show ?case by (simp add: paced_def)
next
  case (9 k l cur i "next" n due)
  with assms show ?case by (simp add: paced_prefetch_fetch)
next
  case (10 k ident n r)
  from assms show ?case by (rule paced_loadAnimeData_resume)
next
  case (11 k l cur i "next" r)
  from assms show ?case by (rule paced_prefetch_resume)
qed

lemma paced_init: "paced init"
  by (simp add: paced_def init_def spaced_def)

lemma paced_run: "paced (run evs init)"
  by (rule run_rule [where P = paced]) (simp_all add: paced_step paced_init)

section \<open>The cooldown\<close>

lemma concat_map_update:
  "k < length xs \<Longrightarrow>
   concat (map f (xs[k := y])) = concat (map f (take k xs)) @ f y @ concat (map f (drop (Suc k) xs))"
  by (simp add: upd_conv_take_nth_drop)

lemma concat_map_split:
  assumes "k < length xs"
  shows "concat (map f xs) = concat (map f (take k xs)) @ f (xs ! k) @ concat (map f (drop (Suc k) xs))"
proof -
  have "concat (map f xs) = concat (map f (take k xs @ xs ! k # drop (Suc k) xs))"
    using id_take_nth_drop [OF assms] by simp
  then show ?thesis by simp
qed

lemma concat_map_update_same:
  assumes "f y = f (if k < length xs then xs ! k else y)"
  shows "concat (map f (xs[k := y])) = concat (map f xs)"
proof (cases "k < length xs")
  case True
  with assms show ?thesis
    by (simp add: concat_map_update) (simp add: concat_map_split [OF True, of f])
next
  case False
  then show ?thesis by (simp add: list_update_beyond not_less)
qed

lemma pf_scan_cooldown: "task_cooldown (pf_scan l cur i c t) = []"
  using pf_scan_cases [of l cur i c t] by auto

lemma cooldowns_update:
  assumes "task_cooldown (task_at s k) = []" and "task_cooldown t = []"
  shows "concat (map task_cooldown ((tasks s)[k := t])) = cooldowns s"
  unfolding cooldowns_def
  by (rule concat_map_update_same) (use assms in \<open>auto simp: task_at_def\<close>)

lemma cooldowns_fire:
  assumes "task_at s k = Cooldown due"
  shows "length (concat (map task_cooldown ((tasks s)[k := Done]))) + 1 = length (cooldowns s)"
    and "set (concat (map task_cooldown ((tasks s)[k := Done]))) \<subseteq> set (cooldowns s)"
    and "due \<in> set (cooldowns s)"
proof -
  from assms have k: "k < length (tasks s)" "tasks s ! k = Cooldown due"
    by (auto dest: task_at_eq)
  show "length (concat (map task_cooldown ((tasks s)[k := Done]))) + 1 = length (cooldowns s)"
    using k by (simp add: concat_map_update cooldowns_def concat_map_split [OF k(1), of task_cooldown])
  show "set (concat (map task_cooldown ((tasks s)[k := Done]))) \<subseteq> set (cooldowns s)"
    by (auto simp: cooldowns_def dest!: mem_updateD)
  show "due \<in> set (cooldowns s)"
    using k by (simp add: cooldowns_def concat_map_split [OF k(1), of task_cooldown])
qed

lemma cooldowns_loadAnimeData [simp]: "cooldowns (loadAnimeData ident s) = cooldowns s"
  by (simp add: cooldowns_def loadAnimeData_def split: option.splits)

lemma cooldowns_prefetchNext [simp]: "cooldowns (prefetchNext s) = cooldowns s"
  by (simp add: cooldowns_def prefetchNext_def pf_scan_cooldown)

lemma cooldowns_effect [simp]: "cooldowns (effect s) = cooldowns s"
  by (simp add: effect_def) (simp add: cooldowns_def)

lemma cooldowns_handleChoice:
  "cooldowns (handleChoice c s) = (if isCooldown s then cooldowns s else cooldowns s @ [now s + 1000])"
  by (simp add: cooldowns_def handleChoice_def Let_def)

lemma isCooldown_handleChoice [simp]: "isCooldown (handleChoice c s) = True"
  by (simp add: handleChoice_def Let_def split: option.splits)

lemma cooldowns_handleFileUpload [simp]: "cooldowns (handleFileUpload parsed rnd s) = cooldowns s"
  by (simp add: cooldowns_def)

lemma cooldowns_prefetch_fetch:
  "task_at s k = PfTimer l cur i next n due \<Longrightarrow> cooldowns (prefetch_fetch k l cur i next n s) = cooldowns s"
  using cooldowns_update [of s k "PfFetch l cur i next"] by (simp add: cooldowns_def)

lemma cooldowns_loadAnimeData_resume:
  "task_at s k = FgFetch ident n \<Longrightarrow> cooldowns (loadAnimeData_resume k ident r s) = cooldowns s"
  using cooldowns_update [of s k Done] by (simp add: cooldowns_def)

lemma cooldowns_prefetch_resume:
  "task_at s k = PfFetch l cur i next \<Longrightarrow> cooldowns (prefetch_resume k l cur i next r s) = cooldowns s"
  using cooldowns_update [of s k "pf_scan l cur (i + 1)
      (case r of Ok d \<Rightarrow> (cache s)(id_x next \<mapsto> data_value d) | _ \<Rightarrow> cache s) (now s)"]
  by (simp add: cooldowns_def pf_scan_cooldown)

lemma cooldowns_xml:
  "task_at s 0 = LoadXml \<Longrightarrow> concat (map task_cooldown ((tasks s)[0 := Done])) = cooldowns s"
  using cooldowns_update [of s 0 Done] by simp

lemma cooldown_inv_step:
  assumes "cooldown_inv s"
  shows "cooldown_inv (step ev s)"
proof (rule step_rule [where P = cooldown_inv], goal_cases)
  case 1
  show ?case by (rule assms)
next
  case (2 d)
  from assms show ?case by (simp add: cooldown_inv_def cooldowns_def)
next
  case (3 s')
  then show ?case by (simp add: cooldown_inv_def)
next
  case (4 c)
  from assms show ?case by (simp add: cooldown_inv_def cooldowns_handleChoice)
next
  case (5 parsed rnd)
  from assms show ?case by (simp add: cooldown_inv_def)
next
  case (6 rnd)
  with assms show ?case by (simp add: cooldown_inv_def cooldowns_def cooldowns_xml [unfolded cooldowns_def])
next
  case (7 parsed rnd)
  with assms show ?case by (simp add: cooldown_inv_def cooldowns_def cooldowns_xml [unfolded cooldowns_def])
next
  case (8 k due)
  from cooldowns_fire(1) [OF 8(2)] assms show ?case
    by (simp add: cooldown_inv_def cooldowns_def split: if_splits)
next
  case (9 k l cur i "next" n due)
  with assms show ?case by (simp add: cooldown_inv_def cooldowns_prefetch_fetch)
next
  case (10 k ident n r)
  with assms show ?case by (simp add: cooldown_inv_def cooldowns_loadAnimeData_resume)
next
  case (11 k l cur i "next" r)
  with assms show ?case by (simp add: cooldown_inv_def cooldowns_prefetch_resume)
qed

lemma cooldown_inv_init: "cooldown_inv init"
  by (simp add: cooldown_inv_def cooldowns_def init_def)

lemma cooldown_inv_run: "cooldown_inv (run evs init)"
  by (rule run_rule [where P = cooldown_inv]) (simp_all add: cooldown_inv_step cooldown_inv_init)

lemma now_step: "now s \<le> now (step ev s)"
  by (rule step_rule [where P = "\<lambda>s'. now s \<le> now s'"]) simp_all

lemma now_run: "now s \<le> now (run evs s)"
proof (induction evs arbitrary: s)
  case Nil
  show ?case by simp
next
  case (Cons ev evs)
  from now_step [of s ev] Cons [of "step ev s"] show ?case by simp
qed

lemma in_window_step:
  assumes "in_window T s" and "now s < T"
  shows "in_window T (step ev s)"
proof (rule step_rule [where P = "in_window T"], goal_cases)
  case 1
  show ?case by (rule assms)
next
  case (2 d)
  from assms show ?case by (simp add: in_window_def cooldowns_def)
next
  case (3 s')
  then show ?case by (simp add: in_window_def)
next
  case (4 c)
  from assms show ?case by (simp add: in_window_def handleChoice_def)
next
  case (5 parsed rnd)
  from assms show ?case by (simp add: in_window_def)
next
  case (6 rnd)
  with assms show ?case by (simp add: in_window_def cooldowns_def cooldowns_xml [unfolded cooldowns_def])
next
  case (7 parsed rnd)
  with assms show ?case by (simp add: in_window_def cooldowns_def cooldowns_xml [unfolded cooldowns_def])
next
  case (8 k due)
  from cooldowns_fire(3) [OF 8(2)] assms 8(3) show ?case
    by (auto simp: in_window_def)
next
  case (9 k l cur i "next" n due)
  with assms show ?case by (simp add: in_window_def cooldowns_prefetch_fetch)
next
  case (10 k ident n r)
  with assms show ?case by (simp add: in_window_def cooldowns_loadAnimeData_resume)
next
  case (11 k l cur i "next" r)
  with assms show ?case by (simp add: in_window_def cooldowns_prefetch_resume)
qed

lemma in_window_run:
  assumes "in_window T s" and "now (run evs s) < T"
  shows "in_window T (run evs s)"
  using assms
proof (induction evs arbitrary: s)
  case Nil
  then show ?case by simp
next
  case (Cons ev evs)
  from Cons.prems(2) have later: "now (run evs (step ev s)) < T" by simp
  with now_run [of "step ev s" evs] now_step [of s ev] have "now s < T" by simp
  with Cons.prems(1) have "in_window T (step ev s)" by (rule in_window_step)
  from Cons.IH [OF this later] show ?case by simp
qed

lemma click_opens_window:
  assumes "cooldown_inv s" and "\<not> isCooldown s"
  shows "in_window (now s + 1000) (step (Click c) s)"
proof -
  from assms have "cooldowns s = []" by (simp add: cooldown_inv_def)
  with assms(2) show ?thesis
    by (simp add: in_window_def step_def Let_def cooldowns_handleChoice)
qed

lemma ignored_in_cooldown: "isCooldown s \<Longrightarrow> step (Click c) s = s"
  by (simp add: step_def handleChoice_def)

section \<open>Recorded decisions\<close>








section \<open>The shuffle\<close>

lemma draw_in_range:
  assumes "0 \<le> r" and "r < 1"
  shows "nat \<lfloor>r * real (i + 1)\<rfloor> \<le> i"
proof -
  have "r * real (i + 1) < real (i + 1)"
    using assms by simp
  then have "\<lfloor>r * real (i + 1)\<rfloor> < int (i + 1)"
    by (simp add: floor_less_iff)
  then show ?thesis by simp
qed

lemma mset_shuffle_loop:
  assumes "\<forall>i. 0 \<le> rnd i \<and> rnd i < 1"
  shows "i < length arr \<Longrightarrow> mset (shuffle_loop rnd i arr) = mset arr"
proof (induction i arbitrary: arr)
  case 0
  show ?case by simp
next
  case (Suc i)
  let ?j = "nat \<lfloor>rnd (Suc i) * real (Suc i + 1)\<rfloor>"
  from assms have "?j \<le> Suc i" using draw_in_range [of "rnd (Suc i)" "Suc i"] by simp
  with Suc.prems have j: "?j < length arr" by simp
  let ?arr = "arr[Suc i := arr ! ?j, ?j := arr ! Suc i]"
  from Suc.prems have "i < length ?arr" by simp
  then have "mset (shuffle_loop rnd i ?arr) = mset ?arr" by (rule Suc.IH)
  also have "\<dots> = mset arr" using Suc.prems j by (simp add: mset_swap)
  finally show ?case by (simp add: Let_def)
qed

lemma mset_shuffleArray:
  assumes "\<forall>i. 0 \<le> rnd i \<and> rnd i < 1"
  shows "mset (shuffleArray rnd array) = mset array"
proof (cases "array = []")
  case True
  then show ?thesis by (simp add: shuffleArray_def)
next
  case False
  then have "length array - 1 < length array" by simp
  then show ?thesis
    unfolding shuffleArray_def by (rule mset_shuffle_loop [OF assms])
qed

section \<open>Further lemmas for the claims\<close>




lemma effect_task_at:
  assumes "k < length (tasks s)"
  shows "task_at (effect s) k = task_at s k"
  using assms
  by (auto simp: task_at_def effect_def prefetchNext_def loadAnimeData_def nth_append
      split: option.splits)

lemma click_cooldown_task:
  assumes "\<not> isCooldown s"
  shows "task_at (step (Click c) s) (length (tasks s)) = Cooldown (now s + 1000)"
proof -
  from assms have h: "tasks (handleChoice c s) = tasks s @ [Cooldown (now s + 1000)]"
    by (simp add: handleChoice_def Let_def split: option.splits)
  then have "task_at (handleChoice c s) (length (tasks s)) = Cooldown (now s + 1000)"
    by (simp add: task_at_def)
  moreover from h have "task_at (effect (handleChoice c s)) (length (tasks s)) =
      task_at (handleChoice c s) (length (tasks s))"
    by (intro effect_task_at) simp
  ultimately show ?thesis by (simp add: step_def Let_def)
qed

lemma cooldown_ends:
  assumes "task_at s k = Cooldown due" and "due \<le> now s + d"
  shows "\<not> isCooldown (step (Fire k) (step (Advance d) s))"
proof -
  from assms(1) have "k < length (tasks s)" and "tasks s ! k = Cooldown due"
    by (auto dest: task_at_eq)
  with assms(2) show ?thesis by (simp add: step_def task_at_def)
qed

lemma window_after_click:
  assumes "\<not> isCooldown (run pre init)"
    and "now (run evs (step (Click c) (run pre init))) < now (run pre init) + 1000"
  shows "isCooldown (run evs (step (Click c) (run pre init)))"
    and "step (Click c') (run evs (step (Click c) (run pre init))) =
         run evs (step (Click c) (run pre init))"
proof -
  have "in_window (now (run pre init) + 1000) (step (Click c) (run pre init))"
    using cooldown_inv_run assms(1) by (rule click_opens_window)
  then have "in_window (now (run pre init) + 1000) (run evs (step (Click c) (run pre init)))"
    using assms(2) by (rule in_window_run)
  then show "isCooldown (run evs (step (Click c) (run pre init)))"
    by (simp add: in_window_def)
  then show "step (Click c') (run evs (step (Click c) (run pre init))) =
         run evs (step (Click c) (run pre init))"
    by (rule ignored_in_cooldown)
qed


lemma rejected_click:
  assumes "isCooldown s \<or> \<not> truthy (jikanData s) \<or> length (animeList s) \<le> currentIndex s"
  shows "step (Click c) s =
     (if isCooldown s then s
      else s\<lparr>isCooldown := True, tasks := tasks s @ [Cooldown (now s + 1000)]\<rparr>)"
  using assms by (auto simp: step_def handleChoice_def Let_def)


lemma shuffle_loop_store_eq:
  "arr < length h \<Longrightarrow> shuffle_loop_store rnd i arr h = h[arr := shuffle_loop rnd i (h ! arr)]"
proof (induction i arbitrary: h)
  case 0
  then show ?case by simp
next
  case (Suc i)
  let ?j = "nat \<lfloor>rnd (Suc i) * real (Suc i + 1)\<rfloor>"
  let ?h = "h[arr := (h ! arr)[Suc i := h ! arr ! ?j, ?j := h ! arr ! Suc i]]"
  from Suc.prems have "arr < length ?h" by simp
  then have "shuffle_loop_store rnd i arr ?h = ?h[arr := shuffle_loop rnd i (?h ! arr)]"
    by (rule Suc.IH)
  with Suc.prems show ?case by (simp add: Let_def)
qed

lemma shuffleArray_store_eq:
  "shuffleArray_store rnd a h = (length h, h @ [shuffleArray rnd (h ! a)])"
  by (simp add: shuffleArray_store_def shuffleArray_def Let_def shuffle_loop_store_eq)

lemma animeList_upload:
  "parsed \<noteq> [] \<Longrightarrow> animeList (step (Upload parsed rnd) s) = shuffleArray rnd parsed"
  by (simp add: step_def handleFileUpload_def)

lemma animeList_xml:
  "task_at s 0 = LoadXml \<Longrightarrow>
   animeList (step (XmlLoaded (Some parsed) rnd) s) = shuffleArray rnd parsed"
  by (simp add: step_def)

section \<open>The claims\<close>

text \<open>The equations that evaluate the model on concrete events.\<close>

lemmas model_defs = step_def effect_def loadAnimeData_def prefetchNext_def pf_scan.simps
  task_at_def issue_def parseInt_def isWhiteSpace_def isDigit_def digitVal_def shuffleArray_def
  loadAnimeData_resume_def prefetch_fetch_def prefetch_resume_def handleChoice_def
  handleFileUpload_def init_def entry_def meta_def keep_order_def all_zero_def Let_def
  in_flight_def pf_waiting_def calls_for_def cooldowns_def js_def cache_get_def
  object_prototype_names_def data_value_def anime_json_def optional_def nullable_def

subsection \<open>C1: one call in flight per identifier\<close>

text \<open>
  C1, as the code has it.  Nothing records the identifiers whose call is in flight; the
  two paths look at the cache only, with the test \<^verbatim>\<open>if (cacheRef.current[id])\<close>.  What
  holds is this.  Take a state where the lookup of an identifier is truthy and no
  prefetch pass is sitting in its 900 ms delay for it, and any events after it with no
  upload among them.  If no call for the identifier is in flight in that state, no
  outbound call is made for it again.  If calls for it are in flight, the same holds
  provided every successful response carries truthy data: a successful response
  without data stores \<^verbatim>\<open>undefined\<close> under the key, and the next test of the cache fails.
\<close>

theorem C1_cached_not_fetched_again:
  assumes "truthy (cache_get (cache s) ident)" and "ident \<notin> set (pf_waiting s)"
    and "\<forall>ev \<in> set evs. \<not> is_upload ev"
  shows "(ident \<notin> set (in_flight s) \<longrightarrow> calls_for ident (run evs s) = calls_for ident s) \<and>
         ((\<forall>ev \<in> set evs. answers_data ev) \<longrightarrow> calls_for ident (run evs s) = calls_for ident s)"
proof (intro conjI impI)
  assume "ident \<notin> set (in_flight s)"
  with assms(1,2) have "quiet ident (cache_get (cache s) ident) (calls_for ident s) s"
    by (simp add: quiet_def)
  then have "quiet ident (cache_get (cache s) ident) (calls_for ident s) (run evs s)"
    using assms(3) by (rule quiet_run)
  then show "calls_for ident (run evs s) = calls_for ident s"
    by (simp add: quiet_def)
next
  assume "\<forall>ev \<in> set evs. answers_data ev"
  with assms(3) have evs: "\<forall>ev \<in> set evs. \<not> is_upload ev \<and> answers_data ev"
    by simp
  from assms(1,2) have "settled ident (calls_for ident s) s"
    by (simp add: settled_def)
  then have "settled ident (calls_for ident s) (run evs s)"
    using evs by (rule settled_run)
  then show "calls_for ident (run evs s) = calls_for ident s"
    by (simp add: settled_def)
qed

text \<open>
  The theorem at work: identifier \<open>2\<close> is stored by the prefetch pass.  When the user
  decides, the cursor moves to \<open>2\<close>, \<^verbatim>\<open>loadAnimeData\<close> finds it in the cache and shows it,
  and the log still holds the one call of the pass.
\<close>

theorem C1_cached_not_fetched_again_witness:
  "cache_get (cache (run [XmlLoaded (Some [entry ''1'', entry ''2'', entry ''3'']) keep_order,
                          Respond 1 (Ok (Some (meta 1 8))), Advance 900, Fire 2,
                          Respond 2 (Ok (Some (meta 2 7)))] init)) (js ''2'') = Json (meta 2 7) \<and>
   pf_waiting (run [XmlLoaded (Some [entry ''1'', entry ''2'', entry ''3'']) keep_order,
                    Respond 1 (Ok (Some (meta 1 8))), Advance 900, Fire 2,
                    Respond 2 (Ok (Some (meta 2 7)))] init) = [js ''3''] \<and>
   in_flight (run [XmlLoaded (Some [entry ''1'', entry ''2'', entry ''3'']) keep_order,
                   Respond 1 (Ok (Some (meta 1 8))), Advance 900, Fire 2,
                   Respond 2 (Ok (Some (meta 2 7)))] init) = [] \<and>
   currentIndex (run [Click liked]
      (run [XmlLoaded (Some [entry ''1'', entry ''2'', entry ''3'']) keep_order,
            Respond 1 (Ok (Some (meta 1 8))), Advance 900, Fire 2,
            Respond 2 (Ok (Some (meta 2 7)))] init)) = 1 \<and>
   jikanData (run [Click liked]
      (run [XmlLoaded (Some [entry ''1'', entry ''2'', entry ''3'']) keep_order,
            Respond 1 (Ok (Some (meta 1 8))), Advance 900, Fire 2,
            Respond 2 (Ok (Some (meta 2 7)))] init)) = Json (meta 2 7) \<and>
   calls_for (js ''2'') (run [Click liked]
      (run [XmlLoaded (Some [entry ''1'', entry ''2'', entry ''3'']) keep_order,
            Respond 1 (Ok (Some (meta 1 8))), Advance 900, Fire 2,
            Respond 2 (Ok (Some (meta 2 7)))] init)) =
     [\<lparr>call_at = 900, call_idNum = 2, call_key = js ''2'', call_origin = 2\<rparr>]"
  using C1_cached_not_fetched_again
    [of "run [XmlLoaded (Some [entry ''1'', entry ''2'', entry ''3'']) keep_order,
              Respond 1 (Ok (Some (meta 1 8))), Advance 900, Fire 2,
              Respond 2 (Ok (Some (meta 2 7)))] init" "js ''2''" "[Click liked]"]
  by (simp add: model_defs)

text \<open>
  C1 as stated fails.  The list is \<open>1, 2, 3\<close>.  The pass started at cursor 0 waits 900 ms
  and starts its call for \<open>2\<close>; 50 ms later the user likes the first entry, the cursor
  moves to \<open>2\<close>, and \<^verbatim>\<open>loadAnimeData\<close> finds \<open>2\<close> missing from the cache and starts a second
  call for it.  Two calls for \<open>2\<close> are in flight, from tasks 2 and 4; when the first
  succeeds and the second fails, the cache holds the entry and the foreground shows
  none.
\<close>

theorem C1_two_calls_in_flight:
  "in_flight (run [XmlLoaded (Some [entry ''1'', entry ''2'', entry ''3'']) keep_order,
                   Respond 1 (Ok (Some (meta 1 8))), Advance 900, Fire 2, Advance 50,
                   Click liked] init)
     = [js ''2'', js ''2''] \<and>
   map call_origin
     (calls_for (js ''2'')
        (run [XmlLoaded (Some [entry ''1'', entry ''2'', entry ''3'']) keep_order,
              Respond 1 (Ok (Some (meta 1 8))), Advance 900, Fire 2, Advance 50,
              Click liked] init))
     = [2, 4] \<and>
   jikanData (run [XmlLoaded (Some [entry ''1'', entry ''2'', entry ''3'']) keep_order,
                   Respond 1 (Ok (Some (meta 1 8))), Advance 900, Fire 2, Advance 50,
                   Click liked, Respond 2 (Ok (Some (meta 2 7))), Respond 4 Failed] init)
     = Json JNull \<and>
   cache (run [XmlLoaded (Some [entry ''1'', entry ''2'', entry ''3'']) keep_order,
               Respond 1 (Ok (Some (meta 1 8))), Advance 900, Fire 2, Advance 50,
               Click liked, Respond 2 (Ok (Some (meta 2 7))), Respond 4 Failed] init) (js ''2'')
     = Some (Json (meta 2 7))"
  by (simp add: model_defs)

subsection \<open>C2: the 900 ms gate\<close>

text \<open>
  C2, as the code has it.  The delay is the \<^verbatim>\<open>setTimeout\<close> inside the loop of
  \<^verbatim>\<open>prefetchNext\<close>, so it separates the calls of one pass: in every reachable state, two
  calls in the log that were issued by the same task started at least 900 ms apart.
  \<^verbatim>\<open>loadAnimeData\<close> waits for nothing, and nothing orders the calls of different tasks.
\<close>

theorem C2_delay_within_one_pass:
  "spaced (calls (run evs init))"
  using paced_run [of evs] by (simp add: paced_def)

text \<open>One pass that issues two calls: they start at 900 and at 1800.\<close>

theorem C2_delay_within_one_pass_witness:
  "spaced (calls (run [XmlLoaded (Some [entry ''1'', entry ''2'', entry ''3'']) keep_order,
                       Respond 1 (Ok (Some (meta 1 8))), Advance 900, Fire 2,
                       Respond 2 (Ok (Some (meta 2 7))), Advance 900, Fire 2] init)) \<and>
   calls (run [XmlLoaded (Some [entry ''1'', entry ''2'', entry ''3'']) keep_order,
               Respond 1 (Ok (Some (meta 1 8))), Advance 900, Fire 2,
               Respond 2 (Ok (Some (meta 2 7))), Advance 900, Fire 2] init) =
     [\<lparr>call_at = 0, call_idNum = 1, call_key = js ''1'', call_origin = 1\<rparr>,
      \<lparr>call_at = 900, call_idNum = 2, call_key = js ''2'', call_origin = 2\<rparr>,
      \<lparr>call_at = 1800, call_idNum = 3, call_key = js ''3'', call_origin = 2\<rparr>]"
  using C2_delay_within_one_pass
    [of "[XmlLoaded (Some [entry ''1'', entry ''2'', entry ''3'']) keep_order,
          Respond 1 (Ok (Some (meta 1 8))), Advance 900, Fire 2,
          Respond 2 (Ok (Some (meta 2 7))), Advance 900, Fire 2]"]
  by (simp add: model_defs)

text \<open>
  C2 as stated fails.  In the run of the counterexample to C1 the pass starts its call
  at time 900 and the foreground path starts the next call at time 950: two
  consecutive outbound calls 50 ms apart.
\<close>

theorem C2_calls_50_ms_apart:
  "calls (run [XmlLoaded (Some [entry ''1'', entry ''2'', entry ''3'']) keep_order,
               Respond 1 (Ok (Some (meta 1 8))), Advance 900, Fire 2, Advance 50,
               Click liked] init) =
     [\<lparr>call_at = 0, call_idNum = 1, call_key = js ''1'', call_origin = 1\<rparr>,
      \<lparr>call_at = 900, call_idNum = 2, call_key = js ''2'', call_origin = 2\<rparr>,
      \<lparr>call_at = 950, call_idNum = 2, call_key = js ''2'', call_origin = 4\<rparr>]"
  by (simp add: model_defs)

subsection \<open>C3: the cache within a session\<close>




subsection \<open>C4: what one warm pass requests\<close>

text \<open>
  C4, as the code has it.  A pass walks the positions \<open>cursor + 1\<close> to \<open>cursor + 3\<close> in
  order.  Where it starts, and where it goes on after each response, it stops at the
  first position of the rest of the window that is inside the list, whose identifier
  has no truthy lookup in the cache at that moment and is a number for \<^verbatim>\<open>parseInt\<close>
  (\<open>wanted\<close>); it waits 900 ms there, then issues the call for that entry; if there is
  no such position it ends.  Calls in flight are not looked at, and no call is issued
  anywhere else.
\<close>

theorem C4_warm_pass_targets:
  "tasks (prefetchNext s) =
     tasks s @
       [case find (wanted (animeList s) (cache s)) [currentIndex s + 1 ..< currentIndex s + 4] of
          None \<Rightarrow> Done
        | Some j \<Rightarrow> PfTimer (animeList s) (currentIndex s) j (animeList s ! j)
                     (the (parseInt (id_x (animeList s ! j)))) (now s + 900)] \<and>
   calls (prefetchNext s) = calls s \<and>
   calls (prefetch_fetch k l cur i next idNum s) =
     calls s @ [\<lparr>call_at = now s, call_idNum = idNum, call_key = id_x next, call_origin = k\<rparr>] \<and>
   tasks (prefetch_fetch k l cur i next idNum s) = (tasks s)[k := PfFetch l cur i next] \<and>
   calls (prefetch_resume k l cur i next r s) = calls s \<and>
   tasks (prefetch_resume k l cur i next r s) =
     (tasks s)[k :=
       case find (wanted l (cache (prefetch_resume k l cur i next r s))) [i + 1 ..< cur + 4] of
         None \<Rightarrow> Done
       | Some j \<Rightarrow> PfTimer l cur j (l ! j) (the (parseInt (id_x (l ! j)))) (now s + 900)]"
proof -
  have start: "tasks (prefetchNext s) =
      tasks s @ [pf_scan (animeList s) (currentIndex s) (currentIndex s + 1) (cache s) (now s)]"
    by (simp add: prefetchNext_def)
  have resume: "tasks (prefetch_resume k l cur i next r s) =
      (tasks s)[k := pf_scan l cur (i + 1) (cache (prefetch_resume k l cur i next r s)) (now s)]"
    by simp
  show ?thesis
    unfolding start resume pf_scan_find by simp
qed

text \<open>
  Cursor 0 with \<open>2\<close> cached: the pass goes by \<open>2\<close>, by \<open>constructor\<close> (a member every
  object inherits) and by \<open>x\<close>, and ends.  An identifier that is a no-break space
  followed by \<open>42\<close> is a number for \<^verbatim>\<open>parseInt\<close>: when it is at position 3 of the list
  the pass waits 900 ms for it.
\<close>

theorem C4_warm_pass_targets_witness:
  "tasks (prefetchNext
      \<lparr>animeList = [entry ''1'', entry ''2'', entry ''constructor'', entry ''x'',
                    \<lparr>id_x = 0xA0 # js ''42'', title_x = js ''Title'', status_x = js ''''\<rparr>],
       currentIndex = 0, jikanData = Json JNull, choices = Map.empty, likedShows = [],
       isCooldown = False, cache = [js ''2'' \<mapsto> Json (meta 2 7)], now = 0, tasks = [],
       calls = []\<rparr>) = [Done] \<and>
   tasks (prefetchNext
      \<lparr>animeList = [entry ''1'', entry ''2'', entry ''x'',
                    \<lparr>id_x = 0xA0 # js ''42'', title_x = js ''Title'', status_x = js ''''\<rparr>],
       currentIndex = 0, jikanData = Json JNull, choices = Map.empty, likedShows = [],
       isCooldown = False, cache = [js ''2'' \<mapsto> Json (meta 2 7)], now = 0, tasks = [],
       calls = []\<rparr>) =
     [PfTimer [entry ''1'', entry ''2'', entry ''x'',
               \<lparr>id_x = 0xA0 # js ''42'', title_x = js ''Title'', status_x = js ''''\<rparr>] 0 3
        \<lparr>id_x = 0xA0 # js ''42'', title_x = js ''Title'', status_x = js ''''\<rparr> 42 900]"
  using C4_warm_pass_targets
    [of "\<lparr>animeList = [entry ''1'', entry ''2'', entry ''x'',
                    \<lparr>id_x = 0xA0 # js ''42'', title_x = js ''Title'', status_x = js ''''\<rparr>],
       currentIndex = 0, jikanData = Json JNull, choices = Map.empty, likedShows = [],
       isCooldown = False, cache = [js ''2'' \<mapsto> Json (meta 2 7)], now = 0, tasks = [],
       calls = []\<rparr>"]
  by (simp add: model_defs wanted_def upt_rec)

text \<open>
  C4 as stated fails.  The pass started at cursor 0 has its call for \<open>3\<close> (position 2)
  in flight when the user decides; the pass started at cursor 1 schedules position 2
  again, and 900 ms later a second call for \<open>3\<close> is in flight.
\<close>

theorem C4_in_flight_requested_again:
  "in_flight (run [XmlLoaded (Some [entry ''1'', entry ''2'', entry ''3'']) keep_order,
                   Respond 1 (Ok (Some (meta 1 8))), Advance 900, Fire 2,
                   Respond 2 (Ok (Some (meta 2 7))), Advance 900, Fire 2, Click liked] init)
     = [js ''3''] \<and>
   task_at (run [XmlLoaded (Some [entry ''1'', entry ''2'', entry ''3'']) keep_order,
                 Respond 1 (Ok (Some (meta 1 8))), Advance 900, Fire 2,
                 Respond 2 (Ok (Some (meta 2 7))), Advance 900, Fire 2, Click liked] init) 4 =
     PfTimer [entry ''1'', entry ''2'', entry ''3''] 1 2 (entry ''3'') 3 2700 \<and>
   map call_origin
     (calls_for (js ''3'')
        (run [XmlLoaded (Some [entry ''1'', entry ''2'', entry ''3'']) keep_order,
              Respond 1 (Ok (Some (meta 1 8))), Advance 900, Fire 2,
              Respond 2 (Ok (Some (meta 2 7))), Advance 900, Fire 2, Click liked,
              Advance 900, Fire 4] init)) = [2, 4] \<and>
   in_flight (run [XmlLoaded (Some [entry ''1'', entry ''2'', entry ''3'']) keep_order,
                   Respond 1 (Ok (Some (meta 1 8))), Advance 900, Fire 2,
                   Respond 2 (Ok (Some (meta 2 7))), Advance 900, Fire 2, Click liked,
                   Advance 900, Fire 4] init) = [js ''3'', js ''3'']"
  by (simp add: model_defs)

subsection \<open>C5: an accepted decision\<close>

text \<open>
  C5.  \<^verbatim>\<open>handleChoice\<close> tests \<^verbatim>\<open>jikanData\<close>, and \<^verbatim>\<open>jikanData\<close> is not cleared when the cursor
  moves: until the call for the new entry is answered it holds the metadata of the
  entry before.  The list is \<open>1, 2, 3\<close> and the service takes more than a second to
  answer for \<open>2\<close>.  The first entry is resolved and liked at 200 ms; the timers fire in
  the order they are due.  When the cooldown ends at 1200 ms the cursor is at \<open>2\<close>, the
  lookup of \<open>2\<close> is \<^verbatim>\<open>undefined\<close>, both calls for \<open>2\<close> are unanswered, and the current
  metadata is that of \<open>1\<close>.  A decision made now is accepted: it is recorded for \<open>2\<close>, the
  cursor moves to 2, and the metadata of \<open>1\<close> is appended to the liked shows a second
  time.
\<close>

theorem C5_unresolved_entry_accepted:
  "currentIndex (run [XmlLoaded (Some [entry ''1'', entry ''2'', entry ''3'']) keep_order,
                      Advance 100, Respond 1 (Ok (Some (meta 1 8))), Advance 100, Click liked,
                      Advance 700, Fire 2, Advance 200, Fire 5, Advance 100, Fire 3] init) = 1 \<and>
   \<not> isCooldown (run [XmlLoaded (Some [entry ''1'', entry ''2'', entry ''3'']) keep_order,
                      Advance 100, Respond 1 (Ok (Some (meta 1 8))), Advance 100, Click liked,
                      Advance 700, Fire 2, Advance 200, Fire 5, Advance 100, Fire 3] init) \<and>
   cache_get (cache (run [XmlLoaded (Some [entry ''1'', entry ''2'', entry ''3'']) keep_order,
                      Advance 100, Respond 1 (Ok (Some (meta 1 8))), Advance 100, Click liked,
                      Advance 700, Fire 2, Advance 200, Fire 5, Advance 100, Fire 3] init))
     (js ''2'') = Undefined \<and>
   in_flight (run [XmlLoaded (Some [entry ''1'', entry ''2'', entry ''3'']) keep_order,
                      Advance 100, Respond 1 (Ok (Some (meta 1 8))), Advance 100, Click liked,
                      Advance 700, Fire 2, Advance 200, Fire 5, Advance 100, Fire 3] init)
     = [js ''2'', js ''2'', js ''3''] \<and>
   jikanData (run [XmlLoaded (Some [entry ''1'', entry ''2'', entry ''3'']) keep_order,
                      Advance 100, Respond 1 (Ok (Some (meta 1 8))), Advance 100, Click liked,
                      Advance 700, Fire 2, Advance 200, Fire 5, Advance 100, Fire 3] init)
     = Json (meta 1 8) \<and>
   currentIndex (run [XmlLoaded (Some [entry ''1'', entry ''2'', entry ''3'']) keep_order,
                      Advance 100, Respond 1 (Ok (Some (meta 1 8))), Advance 100, Click liked,
                      Advance 700, Fire 2, Advance 200, Fire 5, Advance 100, Fire 3,
                      Click liked] init) = 2 \<and>
   choices (run [XmlLoaded (Some [entry ''1'', entry ''2'', entry ''3'']) keep_order,
                      Advance 100, Respond 1 (Ok (Some (meta 1 8))), Advance 100, Click liked,
                      Advance 700, Fire 2, Advance 200, Fire 5, Advance 100, Fire 3,
                      Click liked] init) (js ''2'') = Some liked \<and>
   likedShows (run [XmlLoaded (Some [entry ''1'', entry ''2'', entry ''3'']) keep_order,
                      Advance 100, Respond 1 (Ok (Some (meta 1 8))), Advance 100, Click liked,
                      Advance 700, Fire 2, Advance 200, Fire 5, Advance 100, Fire 3,
                      Click liked] init) = [Json (meta 1 8), Json (meta 1 8)]"
  by (simp add: model_defs)

subsection \<open>C6: recorded decisions are kept\<close>




subsection \<open>C7: identifiers that are not numbers\<close>



subsection \<open>C8: the reset at an upload\<close>




subsection \<open>C9: the shuffle\<close>

text \<open>
  C9.  \<open>rnd\<close> gives the draws of \<^verbatim>\<open>Math.random()\<close>, each in \<open>[0, 1)\<close>.  The result of
  \<^verbatim>\<open>shuffleArray\<close> has the elements of its argument, each as often, and so the same
  length.  On the store, the result is a new array: it is not the argument, the
  argument and every other array of the store are as before, and the new array holds
  the shuffled elements.  The list of the session, after an upload and after the mount
  effect, is \<^verbatim>\<open>shuffleArray\<close> of the parsed entries: the same entries, in the order the
  draws give.
\<close>

theorem C9_shuffle_is_permutation:
  assumes "\<forall>i. 0 \<le> rnd i \<and> rnd i < 1"
  shows "mset (shuffleArray rnd array) = mset array \<and>
         length (shuffleArray rnd array) = length array \<and>
         (a < length h \<longrightarrow>
            fst (shuffleArray_store rnd a h) \<noteq> a \<and>
            snd (shuffleArray_store rnd a h) ! a = h ! a \<and>
            take (length h) (snd (shuffleArray_store rnd a h)) = h \<and>
            snd (shuffleArray_store rnd a h) ! fst (shuffleArray_store rnd a h) =
              shuffleArray rnd (h ! a)) \<and>
         (parsed \<noteq> [] \<longrightarrow>
            animeList (step (Upload parsed rnd) s) = shuffleArray rnd parsed \<and>
            mset (animeList (step (Upload parsed rnd) s)) = mset parsed) \<and>
         (task_at s 0 = LoadXml \<longrightarrow>
            animeList (step (XmlLoaded (Some parsed) rnd) s) = shuffleArray rnd parsed \<and>
            mset (animeList (step (XmlLoaded (Some parsed) rnd) s)) = mset parsed)"
proof -
  note perm = mset_shuffleArray [OF assms]
  have "length (shuffleArray rnd array) = length array"
    using perm [of array] by (rule mset_eq_length)
  moreover have "a < length h \<longrightarrow>
            fst (shuffleArray_store rnd a h) \<noteq> a \<and>
            snd (shuffleArray_store rnd a h) ! a = h ! a \<and>
            take (length h) (snd (shuffleArray_store rnd a h)) = h \<and>
            snd (shuffleArray_store rnd a h) ! fst (shuffleArray_store rnd a h) =
              shuffleArray rnd (h ! a)"
    by (simp add: shuffleArray_store_eq nth_append)
  ultimately show ?thesis
    by (simp add: animeList_upload animeList_xml perm)
qed

text \<open>
  With every draw 0 the three entries are rotated; the argument stays at address 0
  of the store and the result is the new array at address 1.
\<close>

theorem C9_shuffle_is_permutation_witness:
  "shuffleArray all_zero [entry ''1'', entry ''2'', entry ''3''] =
     [entry ''2'', entry ''3'', entry ''1''] \<and>
   mset (shuffleArray all_zero [entry ''1'', entry ''2'', entry ''3'']) =
     mset [entry ''1'', entry ''2'', entry ''3''] \<and>
   shuffleArray_store all_zero 0 [[entry ''1'', entry ''2'', entry ''3'']] =
     (1, [[entry ''1'', entry ''2'', entry ''3''], [entry ''2'', entry ''3'', entry ''1'']]) \<and>
   animeList (step (Upload [entry ''1'', entry ''2'', entry ''3''] all_zero) init) =
     [entry ''2'', entry ''3'', entry ''1'']"
proof -
  have draws: "\<forall>i. 0 \<le> all_zero i \<and> all_zero i < 1"
    by (simp add: all_zero_def)
  have "shuffleArray all_zero [entry ''1'', entry ''2'', entry ''3''] =
     [entry ''2'', entry ''3'', entry ''1'']"
    by (simp add: shuffleArray_def all_zero_def)
  moreover have "shuffleArray_store all_zero 0 [[entry ''1'', entry ''2'', entry ''3'']] =
     (1, [[entry ''1'', entry ''2'', entry ''3''], [entry ''2'', entry ''3'', entry ''1'']])"
    by (simp add: shuffleArray_store_def all_zero_def)
  moreover have "animeList (step (Upload [entry ''1'', entry ''2'', entry ''3''] all_zero) init) =
     [entry ''2'', entry ''3'', entry ''1'']"
    by (simp add: step_def handleFileUpload_def shuffleArray_def all_zero_def)
  ultimately show ?thesis
    using C9_shuffle_is_permutation [OF draws, of "[entry ''1'', entry ''2'', entry ''3'']"]
    by simp
qed

subsection \<open>C10: a rejected decision\<close>

text \<open>
  C10.  The test of \<^verbatim>\<open>handleChoice\<close> is on \<^verbatim>\<open>jikanData\<close>, which still holds the metadata of
  the entry before when the current entry has none.  The list is \<open>1, x\<close>; \<open>x\<close> is not a
  number, so no call is ever made for it and nothing is cached for it.  The first
  entry is resolved and liked.  When the cooldown has ended the cursor is at \<open>x\<close> and no
  metadata exists for \<open>x\<close>.  A decision made now is not rejected: the cursor moves to 2,
  the decision is recorded for \<open>x\<close>, and the metadata of \<open>1\<close> is appended to the liked
  shows.
\<close>

theorem C10_unresolved_entry_not_rejected:
  "currentIndex (run [XmlLoaded (Some [entry ''1'', entry ''x'']) keep_order,
                      Advance 100, Respond 1 (Ok (Some (meta 1 8))), Advance 100, Click liked,
                      Advance 1000, Fire 3] init) = 1 \<and>
   \<not> isCooldown (run [XmlLoaded (Some [entry ''1'', entry ''x'']) keep_order,
                      Advance 100, Respond 1 (Ok (Some (meta 1 8))), Advance 100, Click liked,
                      Advance 1000, Fire 3] init) \<and>
   cache_get (cache (run [XmlLoaded (Some [entry ''1'', entry ''x'']) keep_order,
                      Advance 100, Respond 1 (Ok (Some (meta 1 8))), Advance 100, Click liked,
                      Advance 1000, Fire 3] init)) (js ''x'') = Undefined \<and>
   calls_for (js ''x'') (run [XmlLoaded (Some [entry ''1'', entry ''x'']) keep_order,
                      Advance 100, Respond 1 (Ok (Some (meta 1 8))), Advance 100, Click liked,
                      Advance 1000, Fire 3] init) = [] \<and>
   currentIndex (run [XmlLoaded (Some [entry ''1'', entry ''x'']) keep_order,
                      Advance 100, Respond 1 (Ok (Some (meta 1 8))), Advance 100, Click liked,
                      Advance 1000, Fire 3, Click liked] init) = 2 \<and>
   choices (run [XmlLoaded (Some [entry ''1'', entry ''x'']) keep_order,
                      Advance 100, Respond 1 (Ok (Some (meta 1 8))), Advance 100, Click liked,
                      Advance 1000, Fire 3, Click liked] init) (js ''x'') = Some liked \<and>
   likedShows (run [XmlLoaded (Some [entry ''1'', entry ''x'']) keep_order,
                      Advance 100, Respond 1 (Ok (Some (meta 1 8))), Advance 100, Click liked,
                      Advance 1000, Fire 3, Click liked] init) = [Json (meta 1 8), Json (meta 1 8)]"
  by (simp add: model_defs)

end
